theory Spec2Isabelle
  imports Complex_Main "HOL-Library.Word"
begin

section \<open>Data model of advanced\_username\_recon.py\<close>

text \<open>
  Python \<open>str\<close> values that the program builds itself (site names, handles, URLs, HTTP
  methods, the page text of the biography fetch) are \<^typ>\<open>string\<close>; a \<^typ>\<open>char\<close> stands
  for the code point of the same number, so the model covers text whose code points are
  below 256. The decoded text of a response body is a list of code points (\<open>ustr\<close>),
  because its length in characters is what \<open>read_limited_text\<close> counts.
\<close>

type_synonym byte = "8 word"
type_synonym ustr = "nat list"

text \<open>
  A compiled regular expression is used by the program only through the truth value of
  \<open>pattern.search(s)\<close>, so it is the predicate "the pattern has a match somewhere in s".
\<close>

type_synonym pattern = "ustr \<Rightarrow> bool"

definition codepoints :: "string \<Rightarrow> ustr" where
  "codepoints s = map of_char s"

text \<open>
  The exceptions the program raises or meets. All of them are subclasses of Python's
  \<open>Exception\<close> except \<open>CancelledError\<close>, which stands for the exceptions that derive
  from \<open>BaseException\<close> only (\<open>asyncio.CancelledError\<close>, \<open>KeyboardInterrupt\<close>).
\<close>

datatype exn =
    ClientError
  | TimeoutError
  | FileNotFoundError
  | ValueError
  | RegexError
  | KeyError
  | IndexError
  | AttributeError
  | OtherException
  | CancelledError

definition is_Exception :: "exn \<Rightarrow> bool" where
  "is_Exception e = (e \<noteq> CancelledError)"

text \<open>
  \<open>site_data\<close>: one entry of the catalog after \<open>load_sites\<close>. A key that may be absent
  from the dict is an option. The program reads the values of \<open>url\<close> and \<open>method\<close> only
  through \<open>str(...)\<close>, so \<open>cfg_url\<close> and \<open>cfg_method\<close> hold \<open>str\<close> of the value under the
  key: a JSON string is itself, a JSON \<open>null\<close> is the text \<open>None\<close>. \<open>cfg_skip\<close> is the truth
  value of \<open>cfg.get("skip")\<close>.
\<close>

record site_data =
  cfg_url :: "string option"
  cfg_method :: "string option"
  cfg_skip :: bool
  not_found_re :: "pattern option"
  bad_redirect_re :: "pattern option"
  must_re :: "pattern option"

text \<open>
  An \<open>aiohttp.ClientResponse\<close>: \<open>resp.status\<close>, \<open>str(resp.url)\<close>, the URLs of
  \<open>resp.history\<close>, and what \<open>resp.content.iter_chunked(8192)\<close> yields: byte chunks, or
  an exception raised while the body is being read.
\<close>

record response =
  resp_status :: int
  resp_url :: string
  resp_history :: "string list"
  resp_content :: "(exn + byte list) list"

text \<open>The tuple \<open>(site_name, exists, url)\<close>: \<open>exists\<close> is \<open>True\<close>, \<open>False\<close> or \<open>None\<close>.\<close>

type_synonym probe_result = "string \<times> bool option \<times> string"

abbreviation Exists :: "bool option" where "Exists \<equiv> Some True"
abbreviation NotFound :: "bool option" where "NotFound \<equiv> Some False"
abbreviation Uncertain :: "bool option" where "Uncertain \<equiv> None"

section \<open>Networking helpers\<close>

subsection \<open>chunk.decode(errors="ignore")\<close>

text \<open>
  \<open>bytes.decode\<close> with the default encoding UTF-8 and \<open>errors="ignore"\<close>: a well-formed
  UTF-8 sequence gives its code point; a byte at which no well-formed sequence starts is
  dropped. (Python drops the whole ill-formed prefix at once; the bytes after its first
  are continuation bytes, which start no sequence, so dropping byte by byte gives the
  same text.)
\<close>

definition is_cont :: "byte \<Rightarrow> bool" where
  "is_cont b = (0x80 \<le> b \<and> b \<le> 0xBF)"

definition second3 :: "byte \<Rightarrow> byte \<Rightarrow> bool" where
  "second3 b0 b1 =
     (if b0 = 0xE0 then 0xA0 \<le> b1 \<and> b1 \<le> 0xBF
      else if b0 = 0xED then 0x80 \<le> b1 \<and> b1 \<le> 0x9F
      else is_cont b1)"

definition second4 :: "byte \<Rightarrow> byte \<Rightarrow> bool" where
  "second4 b0 b1 =
     (if b0 = 0xF0 then 0x90 \<le> b1 \<and> b1 \<le> 0xBF
      else if b0 = 0xF4 then 0x80 \<le> b1 \<and> b1 \<le> 0x8F
      else is_cont b1)"

fun utf8_head :: "byte list \<Rightarrow> (nat \<times> nat) option" where
  "utf8_head [] = None"
| "utf8_head (b0 # bs) =
     (if b0 < 0x80 then Some (unat b0, 1)
      else if 0xC2 \<le> b0 \<and> b0 \<le> 0xDF then
        (case bs of
           b1 # _ \<Rightarrow>
             if is_cont b1
             then Some ((unat b0 - 0xC0) * 64 + (unat b1 - 0x80), 2)
             else None
         | _ \<Rightarrow> None)
      else if 0xE0 \<le> b0 \<and> b0 \<le> 0xEF then
        (case bs of
           b1 # b2 # _ \<Rightarrow>
             if second3 b0 b1 \<and> is_cont b2
             then Some ((unat b0 - 0xE0) * 4096 + (unat b1 - 0x80) * 64 + (unat b2 - 0x80), 3)
             else None
         | _ \<Rightarrow> None)
      else if 0xF0 \<le> b0 \<and> b0 \<le> 0xF4 then
        (case bs of
           b1 # b2 # b3 # _ \<Rightarrow>
             if second4 b0 b1 \<and> is_cont b2 \<and> is_cont b3
             then Some ((unat b0 - 0xF0) * 262144 + (unat b1 - 0x80) * 4096
                        + (unat b2 - 0x80) * 64 + (unat b3 - 0x80), 4)
             else None
         | _ \<Rightarrow> None)
      else None)"

fun decode_ignore :: "byte list \<Rightarrow> ustr" where
  "decode_ignore [] = []"
| "decode_ignore (b # bs) =
     (case utf8_head (b # bs) of
        Some (cp, k) \<Rightarrow> cp # decode_ignore (drop (k - 1) bs)
      | None \<Rightarrow> decode_ignore bs)"

subsection \<open>read\_limited\_text\<close>

text \<open>
  The loop of \<open>read_limited_text\<close> over the chunks still to come, with the local
  variables \<open>chunks\<close> and \<open>read\<close>. An exception met while iterating is raised.
\<close>

fun read_loop :: "(exn + byte list) list \<Rightarrow> int \<Rightarrow> ustr list \<Rightarrow> int \<Rightarrow> exn + ustr" where
  "read_loop [] limit_chars chunks read = Inr (concat chunks)"
| "read_loop (Inl e # rest) limit_chars chunks read = Inl e"
| "read_loop (Inr chunk # rest) limit_chars chunks read =
     (let s = decode_ignore chunk;
          chunks' = chunks @ [s];
          read' = read + int (length s)
      in if read' \<ge> limit_chars then Inr (concat chunks')
         else read_loop rest limit_chars chunks' read')"

definition read_limited_text :: "response \<Rightarrow> int \<Rightarrow> exn + ustr" where
  "read_limited_text resp limit_chars = read_loop (resp_content resp) limit_chars [] 0"

subsection \<open>looks\_like\_bad\_redirect\<close>

definition looks_like_bad_redirect :: "site_data \<Rightarrow> response \<Rightarrow> bool" where
  "looks_like_bad_redirect sd resp =
     (case bad_redirect_re sd of
        None \<Rightarrow> False
      | Some bad_re \<Rightarrow>
          if bad_re (codepoints (resp_url resp)) then True
          else if list_ex (\<lambda>h. bad_re (codepoints h)) (resp_history resp) then True
          else False)"

subsection \<open>interpret\_response\<close>

definition interpret_response ::
  "string \<Rightarrow> site_data \<Rightarrow> string \<Rightarrow> response \<Rightarrow> exn + probe_result" where
  "interpret_response site_name sd url resp =
     (let status = resp_status resp in
      if status \<in> {404, 410} then Inr (site_name, Some False, url)
      else if looks_like_bad_redirect sd resp then Inr (site_name, None, url)
      else if status = 200 then
        (if not_found_re sd \<noteq> None \<or> must_re sd \<noteq> None then
           (case read_limited_text resp 120000 of
              Inl e \<Rightarrow> Inl e
            | Inr txt \<Rightarrow>
                if (case not_found_re sd of None \<Rightarrow> False | Some nf \<Rightarrow> nf txt)
                then Inr (site_name, Some False, url)
                else (case must_re sd of
                        Some must \<Rightarrow>
                          if must txt then Inr (site_name, Some True, url)
                          else Inr (site_name, None, url)
                      | None \<Rightarrow> Inr (site_name, Some True, url)))
         else Inr (site_name, None, url))
      else if status \<in> {301, 302, 303, 307, 308, 401, 403, 405, 429, 500, 502, 503}
        then Inr (site_name, None, url)
      else Inr (site_name, None, url))"

section \<open>Probe executor\<close>

subsection \<open>str.upper and str.format\<close>

text \<open>
  \<open>str.upper\<close> on code points below 256: the letters a to z and the Latin-1 letters
  from 224 to 254 (except the division sign 247) move down by 32, and the sharp s (223)
  becomes \<open>SS\<close>. The two letters whose capital lies beyond code point 255 (181 and 255,
  with the capitals 924 and 376) have no image in \<^typ>\<open>string\<close> and are left as they
  are: a method that contains one of them differs from \<open>HEAD\<close> and \<open>GET\<close> in the model as
  it does in Python, and no other use is made of the upper-cased text than this
  comparison and the request itself.
\<close>

definition upper_char :: "char \<Rightarrow> string" where
  "upper_char c =
     (let n = (of_char c :: nat) in
      if (97 \<le> n \<and> n \<le> 122) \<or> (224 \<le> n \<and> n \<le> 254 \<and> n \<noteq> 247)
      then [char_of (n - 32)]
      else if n = 223 then ''SS''
      else [c])"

definition upper :: "string \<Rightarrow> string" where
  "upper s = concat (map upper_char s)"

text \<open>
  \<open>template.format(arg)\<close> with one positional argument and no keyword argument. The
  template is read from left to right: \<open>{{\<close> and \<open>}}\<close> are literal braces, a brace that
  neither is doubled nor belongs to a replacement field raises ValueError, and the first
  error met ends the call. A replacement field is read up to the first of the characters
  \<open>{ } [ : ! .\<close> after its opening brace.

    \<^item> No such character before the end of the template: ValueError (the closing brace is
      missing). An opening brace first: ValueError.
    \<^item> A closing brace first: the text before it is the field name. An empty name takes
      the next automatic index, a name of decimal digits is that index, any other name
      is looked up among the keyword arguments and raises KeyError. Automatic and
      written indices may not be mixed (ValueError). Index 0 is the argument, every other
      index raises IndexError.
    \<^item> One of \<open>[ : ! .\<close> first (an item or attribute lookup, a format specification or a
      conversion), or an index of more than 18 digits (the outcome depends on the word
      size of the platform): the rest of the formatting is \<open>format_other\<close>, of which
      nothing is assumed. Such a field may be replaced by a text that depends on the run
      (the representation of a bound method contains its address).
\<close>

datatype numbering = Unnumbered | Automatic nat | Manual

definition format_other :: "string \<Rightarrow> string \<Rightarrow> numbering \<Rightarrow> exn + string" where
  "format_other = (SOME f. True)"

definition is_decimal :: "char \<Rightarrow> bool" where
  "is_decimal c = (48 \<le> (of_char c :: nat) \<and> (of_char c :: nat) \<le> 57)"

definition decimal :: "string \<Rightarrow> nat" where
  "decimal s = foldl (\<lambda>n c. 10 * n + ((of_char c :: nat) - 48)) 0 s"

text \<open>The field name and what follows it, from the text after the opening brace.\<close>

fun field_name :: "string \<Rightarrow> string \<times> string" where
  "field_name [] = ([], [])"
| "field_name (c # cs) =
     (if c = CHR ''{'' \<or> c = CHR ''}'' \<or> c = CHR ''['' \<or> c = CHR '':'' \<or> c = CHR ''!''
         \<or> c = CHR ''.''
      then ([], c # cs)
      else (case field_name cs of (name, rest) \<Rightarrow> (c # name, rest)))"

lemma field_name_length: "field_name cs = (name, rest) \<Longrightarrow> length rest \<le> length cs"
proof (induction cs arbitrary: name rest)
  case Nil
  then show ?case by simp
next
  case (Cons c cs)
  then show ?case by (fastforce split: if_splits prod.splits)
qed

lemma field_name_after:
  "(name, e # after) = field_name cs \<Longrightarrow> length after < Suc (length cs)"
  using field_name_length [of cs name "e # after"] by simp

function py_format :: "string \<Rightarrow> string \<Rightarrow> numbering \<Rightarrow> exn + string" where
  "py_format [] arg st = Inr []"
| "py_format (c # cs) arg st =
     (if c = CHR ''{'' then
        (case cs of
           [] \<Rightarrow> Inl ValueError
         | d # ds \<Rightarrow>
             if d = CHR ''{'' then map_sum id ((#) CHR ''{'') (py_format ds arg st)
             else
               (case field_name cs of
                  (name, []) \<Rightarrow> Inl ValueError
                | (name, e # after) \<Rightarrow>
                    if e = CHR ''{'' then Inl ValueError
                    else if e \<noteq> CHR ''}'' \<or> length (takeWhile is_decimal name) > 18
                    then format_other (c # cs) arg st
                    else if name = [] then
                      (case st of
                         Manual \<Rightarrow> Inl ValueError
                       | Unnumbered \<Rightarrow>
                           map_sum id ((@) arg) (py_format after arg (Automatic 1))
                       | Automatic n \<Rightarrow>
                           if n = 0
                           then map_sum id ((@) arg) (py_format after arg (Automatic (Suc n)))
                           else Inl IndexError)
                    else if list_all is_decimal name then
                      (case st of
                         Automatic n \<Rightarrow> Inl ValueError
                       | _ \<Rightarrow>
                           if decimal name = 0
                           then map_sum id ((@) arg) (py_format after arg Manual)
                           else Inl IndexError)
                    else Inl KeyError))
      else if c = CHR ''}'' then
        (case cs of
           [] \<Rightarrow> Inl ValueError
         | d # ds \<Rightarrow>
             if d = CHR ''}'' then map_sum id ((#) CHR ''}'') (py_format ds arg st)
             else Inl ValueError)
      else map_sum id ((#) c) (py_format cs arg st))"
  by pat_completeness auto

termination
  by (relation "measure (\<lambda>(template, arg, st). length template)")
    (auto dest: field_name_after simp del: field_name.simps)

text \<open>
  \<open>str(site_data["url"]).format(username)\<close>: the subscript raises KeyError without the
  key, and the template is \<open>str\<close> of the value under the key.
\<close>

definition build_url :: "site_data \<Rightarrow> string \<Rightarrow> exn + string" where
  "build_url sd username =
     (case cfg_url sd of
        None \<Rightarrow> Inl KeyError
      | Some template \<Rightarrow> py_format template username Unnumbered)"

subsection \<open>check\_username\<close>

text \<open>
  What the program does to the outside world: \<open>Request m url\<close> is a call of
  \<open>session.request(m, url, ...)\<close>, \<open>Sleep d\<close> a call of \<open>asyncio.sleep(d)\<close>,
  \<open>Advance\<close> a call of \<open>progress.advance\<close> (a task of the scan has completed) and
  \<open>Get url\<close> the call of \<open>session.get(url, ...)\<close> of the enrichment step. The two
  durations the program can compute, \<open>0.25 * 2 ** 0\<close> and \<open>0.25 * 2 ** 1\<close>, are exact
  in floating point, so a duration is a rational number.

  The network is a function that answers the request of a given attempt with a given
  method by a response or by an exception. An attempt issues at most two requests, the
  second with another method than the first, so attempt and method identify a request.
  The semaphore and the timeout are not modelled: a timeout that expires is the
  exception \<open>TimeoutError\<close>.
\<close>

datatype event = Request string string | Sleep rat | Advance | Get string

type_synonym net = "nat \<Rightarrow> string \<Rightarrow> exn + response"

text \<open>The body of the \<open>try\<close> block: one attempt.\<close>

definition attempt_once ::
  "net \<Rightarrow> string \<Rightarrow> site_data \<Rightarrow> string \<Rightarrow> string \<Rightarrow> nat
     \<Rightarrow> (exn + probe_result) \<times> event list" where
  "attempt_once net site_name sd url method attempt =
     (case net attempt method of
        Inl e \<Rightarrow> (Inl e, [Request method url])
      | Inr resp \<Rightarrow>
          if method = ''HEAD'' \<and> resp_status resp \<in> {403, 405, 429, 500, 502, 503} then
            (case net attempt ''GET'' of
               Inl e \<Rightarrow> (Inl e, [Request method url, Request ''GET'' url])
             | Inr resp2 \<Rightarrow>
                 (interpret_response site_name sd url resp2,
                  [Request method url, Request ''GET'' url]))
          else (interpret_response site_name sd url resp, [Request method url]))"

text \<open>
  The loop \<open>for attempt in range(3)\<close> with its two \<open>except\<close> clauses; an exception
  that is not an \<open>Exception\<close> passes both and leaves the function.
\<close>

fun attempts_loop ::
  "net \<Rightarrow> string \<Rightarrow> site_data \<Rightarrow> string \<Rightarrow> string \<Rightarrow> nat list
     \<Rightarrow> (exn + probe_result) \<times> event list" where
  "attempts_loop net site_name sd url method [] = (Inr (site_name, None, url), [])"
| "attempts_loop net site_name sd url method (attempt # rest) =
     (case attempt_once net site_name sd url method attempt of
        (Inr r, evs) \<Rightarrow> (Inr r, evs)
      | (Inl e, evs) \<Rightarrow>
          if e = ClientError \<or> e = TimeoutError then
            (if attempt = 2 then (Inr (site_name, None, url), evs)
             else (case attempts_loop net site_name sd url method rest of
                     (r, evs') \<Rightarrow> (r, evs @ [Sleep (0.25 * 2 ^ attempt)] @ evs')))
          else if is_Exception e then
            (if attempt = 2 then (Inr (site_name, None, url), evs)
             else (case attempts_loop net site_name sd url method rest of
                     (r, evs') \<Rightarrow> (r, evs @ [Sleep (0.25 * 2 ^ attempt)] @ evs')))
          else (Inl e, evs))"

definition check_username ::
  "net \<Rightarrow> string \<Rightarrow> site_data \<Rightarrow> string \<Rightarrow> (exn + probe_result) \<times> event list" where
  "check_username net site_name sd username =
     (case build_url sd username of
        Inl e \<Rightarrow> (Inl e, [])
      | Inr url \<Rightarrow>
          (let method = upper (case cfg_method sd of None \<Rightarrow> ''HEAD'' | Some m \<Rightarrow> m)
           in attempts_loop net site_name sd url method [0, 1, 2]))"

section \<open>Strings and regular expressions of the enrichment step\<close>

subsection \<open>str.isspace, str.strip, str.lower, substring test, str of a number\<close>

text \<open>
  Python's whitespace among the code points below 256 (what \<open>str.strip\<close> removes and
  what \<open>\s\<close> matches in a \<open>str\<close> pattern): 9 to 13, 28 to 32, 133 and 160.
\<close>

definition isspace :: "char \<Rightarrow> bool" where
  "isspace c =
     (let n = (of_char c :: nat) in
      (9 \<le> n \<and> n \<le> 13) \<or> (28 \<le> n \<and> n \<le> 32) \<or> n = 133 \<or> n = 160)"

definition strip :: "string \<Rightarrow> string" where
  "strip s = rev (dropWhile isspace (rev (dropWhile isspace s)))"

text \<open>
  \<open>str.lower\<close> on code points below 256: the letters A to Z and the Latin-1 capitals
  from 192 to 222 (except the multiplication sign 215) move up by 32.
\<close>

definition lower_char :: "char \<Rightarrow> char" where
  "lower_char c =
     (let n = (of_char c :: nat) in
      if (65 \<le> n \<and> n \<le> 90) \<or> (192 \<le> n \<and> n \<le> 222 \<and> n \<noteq> 215)
      then char_of (n + 32)
      else c)"

definition lower :: "string \<Rightarrow> string" where
  "lower s = map lower_char s"

fun starts_with :: "string \<Rightarrow> string \<Rightarrow> bool" where
  "starts_with [] s = True"
| "starts_with (p # ps) [] = False"
| "starts_with (p # ps) (c # cs) = (p = c \<and> starts_with ps cs)"

text \<open>\<open>sub in s\<close>\<close>

fun contains :: "string \<Rightarrow> string \<Rightarrow> bool" where
  "contains sub [] = (sub = [])"
| "contains sub (c # cs) = (starts_with sub (c # cs) \<or> contains sub cs)"

text \<open>\<open>str(n)\<close> for a number that is not negative\<close>

fun digits :: "nat \<Rightarrow> string" where
  "digits n =
     (if n < 10 then [char_of (48 + n)]
      else digits (n div 10) @ [char_of (48 + n mod 10)])"

declare digits.simps [simp del]

subsection \<open>The four regular expressions of fetch\_x\_bio\<close>

text \<open>
  Each piece of a pattern is a function from the text at the current position to the
  text after the match (\<open>None\<close>: no match here). \<open>lit_ci\<close> is a literal under
  \<open>re.IGNORECASE\<close>; among code points below 256 a letter of the patterns (all are ASCII)
  matches exactly its two cases.
\<close>

fun lit_ci :: "string \<Rightarrow> string \<Rightarrow> string option" where
  "lit_ci [] s = Some s"
| "lit_ci (p # ps) [] = None"
| "lit_ci (p # ps) (c # cs) = (if lower_char c = lower_char p then lit_ci ps cs else None)"

text \<open>\<open>[^>]*>\<close>: the greedy class stops at the first \<open>>\<close>, which the literal then takes.\<close>

definition until_gt :: "string \<Rightarrow> string option" where
  "until_gt s =
     (case dropWhile (\<lambda>c. c \<noteq> CHR ''>'') s of
        [] \<Rightarrow> None
      | _ # rest \<Rightarrow> Some rest)"

text \<open>
  \<open>(.*?)lit\<close> under \<open>re.DOTALL\<close>: the lazy group grows by one character until the
  literal matches; the result is the group.
\<close>

fun lazy_dotall :: "string \<Rightarrow> string \<Rightarrow> string option" where
  "lazy_dotall lit [] = (case lit_ci lit [] of Some _ \<Rightarrow> Some [] | None \<Rightarrow> None)"
| "lazy_dotall lit (c # cs) =
     (case lit_ci lit (c # cs) of
        Some _ \<Rightarrow> Some []
      | None \<Rightarrow> map_option ((#) c) (lazy_dotall lit cs))"

text \<open>\<open>(.*?)"\<close> without \<open>re.DOTALL\<close>: the dot does not match a newline.\<close>

fun lazy_until_quote :: "string \<Rightarrow> string option" where
  "lazy_until_quote [] = None"
| "lazy_until_quote (c # cs) =
     (if c = CHR 0x22 then Some []
      else if c = CHR 0x0A then None
      else map_option ((#) c) (lazy_until_quote cs))"

text \<open>\<open>\s+\<close> before a literal that starts with a letter: all the whitespace there is.\<close>

definition spaces1 :: "string \<Rightarrow> string option" where
  "spaces1 s =
     (case s of
        [] \<Rightarrow> None
      | c # cs \<Rightarrow> if isspace c then Some (dropWhile isspace cs) else None)"

text \<open>\<open>data-testid="UserDescription"[^>]*>(.*?)</div>\<close> at a position; the result is group 1.\<close>

definition match_description :: "string \<Rightarrow> string option" where
  \<open>match_description s =
     (case lit_ci ''data-testid="UserDescription"'' s of
        None \<Rightarrow> None
      | Some r1 \<Rightarrow>
          (case until_gt r1 of
             None \<Rightarrow> None
           | Some r2 \<Rightarrow> lazy_dotall ''</div>'' r2))\<close>

text \<open>\<open><meta\s+name="description"\s+content="(.*?)"\<close> at a position; the result is group 1.\<close>

definition match_meta :: "string \<Rightarrow> string option" where
  \<open>match_meta s =
     (case lit_ci ''<meta'' s of
        None \<Rightarrow> None
      | Some r1 \<Rightarrow>
          (case spaces1 r1 of
             None \<Rightarrow> None
           | Some r2 \<Rightarrow>
               (case lit_ci ''name="description"'' r2 of
                  None \<Rightarrow> None
                | Some r3 \<Rightarrow>
                    (case spaces1 r3 of
                       None \<Rightarrow> None
                     | Some r4 \<Rightarrow>
                         (case lit_ci ''content="'' r4 of
                            None \<Rightarrow> None
                          | Some r5 \<Rightarrow> lazy_until_quote r5)))))\<close>

text \<open>\<open>re.search\<close>: the match at the leftmost position that has one.\<close>

fun re_search :: "(string \<Rightarrow> 'a option) \<Rightarrow> string \<Rightarrow> 'a option" where
  "re_search m [] = m []"
| "re_search m (c # cs) = (case m (c # cs) of Some g \<Rightarrow> Some g | None \<Rightarrow> re_search m cs)"

text \<open>\<open><[^>]+>\<close> at a position; the result is the text after the match.\<close>

definition match_tag :: "string \<Rightarrow> string option" where
  "match_tag s =
     (case s of
        c # d # ds \<Rightarrow> if c = CHR ''<'' \<and> d \<noteq> CHR ''>'' then until_gt ds else None
      | _ \<Rightarrow> None)"

lemma until_gt_length: "until_gt s = Some r \<Longrightarrow> length r < length s"
  using length_dropWhile_le [of "\<lambda>c. c \<noteq> CHR ''>''" s]
  by (auto simp: until_gt_def split: list.splits)

lemma match_tag_length: "match_tag s = Some r \<Longrightarrow> length r < length s"
  by (auto simp: match_tag_def split: list.splits if_splits dest: until_gt_length)

text \<open>\<open>re.sub(r"<[^>]+>", "", s)\<close>\<close>

function sub_tags :: "string \<Rightarrow> string" where
  "sub_tags [] = []"
| "sub_tags (c # cs) =
     (case match_tag (c # cs) of
        Some rest \<Rightarrow> sub_tags rest
      | None \<Rightarrow> c # sub_tags cs)"
  by pat_completeness auto
termination
  by (relation "measure length") (auto dest: match_tag_length)

text \<open>\<open>re.sub(r"\s+", " ", s)\<close>\<close>

function sub_spaces :: "string \<Rightarrow> string" where
  "sub_spaces [] = []"
| "sub_spaces (c # cs) =
     (if isspace c then CHR '' '' # sub_spaces (dropWhile isspace cs)
      else c # sub_spaces cs)"
  by pat_completeness auto
termination
  by (relation "measure length") (auto simp: length_dropWhile_le less_Suc_eq_le)

subsection \<open>fetch\_x\_bio\<close>

text \<open>
  The response of \<open>session.get\<close>: \<open>resp.status\<close> and what
  \<open>await resp.text(errors="ignore")\<close> gives, the page text or an exception.
\<close>

record page =
  page_status :: int
  page_text :: "exn + string"

text \<open>\<open>(bio[:80] + "...") if len(bio) > 80 else bio\<close>\<close>

definition ellipsis80 :: "string \<Rightarrow> string" where
  "ellipsis80 bio = (if length bio > 80 then take 80 bio @ ''...'' else bio)"

text \<open>The body of the \<open>try\<close> block.\<close>

definition fetch_x_bio_try :: "(string \<Rightarrow> exn + page) \<Rightarrow> string \<Rightarrow> exn + string option" where
  "fetch_x_bio_try get url =
     (case get url of
        Inl e \<Rightarrow> Inl e
      | Inr resp \<Rightarrow>
          if page_status resp \<noteq> 200 then Inr None
          else
            (case page_text resp of
               Inl e \<Rightarrow> Inl e
             | Inr txt \<Rightarrow>
                 (case re_search match_description txt of
                    Some g \<Rightarrow>
                      (let bio = strip (sub_tags g);
                           bio = sub_spaces bio
                       in Inr (Some (ellipsis80 bio)))
                  | None \<Rightarrow>
                      (case re_search match_meta txt of
                         Some g \<Rightarrow>
                           (let bio = sub_spaces (strip g)
                            in Inr (Some (ellipsis80 bio)))
                       | None \<Rightarrow> Inr None))))"

definition fetch_x_bio ::
  "(string \<Rightarrow> exn + page) \<Rightarrow> string \<Rightarrow> (exn + string option) \<times> event list" where
  "fetch_x_bio get username =
     (let url = ''https://x.com/'' @ username in
      (case fetch_x_bio_try get url of
         Inl e \<Rightarrow> if is_Exception e then Inr None else Inl e
       | Inr bio \<Rightarrow> Inr bio,
       [Get url]))"

section \<open>Catalog and username variations\<close>

subsection \<open>load\_sites and is\_x\_site\<close>

text \<open>
  An entry of sites.json as parsed, and the file itself: missing, not JSON, JSON that is
  not an object, or an object, whose items are listed in the order of the dict (a dict
  has every key once). \<open>raw_url\<close> and \<open>raw_method\<close> are \<open>None\<close> when the key is absent and
  \<open>str\<close> of the value otherwise (\<open>load_sites\<close> does not look at them, and the rest of the
  program reads them through \<open>str(...)\<close> only): the entry \<open>{"url": null}\<close> has
  \<open>raw_url = Some ''None''\<close>. A regex field is \<open>None\<close> when the key is absent or its value
  is \<open>null\<close> or another false value that is not a string (the program treats them
  alike), and the JSON string otherwise. A file in which an entry is not an object, or a
  regex field is a true value that is not a string, makes \<open>load_sites\<close> raise while it
  loads; such a file is not among the values of \<open>sites_file\<close>. \<open>re.compile\<close> is a
  parameter: it gives the pattern or raises.
\<close>

record raw_cfg =
  raw_url :: "string option"
  raw_method :: "string option"
  raw_skip :: bool
  not_found_regex :: "string option"
  bad_redirect_regex :: "string option"
  must_contain_regex :: "string option"

datatype sites_file = NoFile | NotJson | NotObject | Object "(string \<times> raw_cfg) list"

text \<open>\<open>re.compile(r, re.IGNORECASE) if r else None\<close>\<close>

definition compile_opt ::
  "(string \<Rightarrow> exn + pattern) \<Rightarrow> string option \<Rightarrow> exn + pattern option" where
  "compile_opt re_compile src =
     (case src of
        None \<Rightarrow> Inr None
      | Some r \<Rightarrow> if r = [] then Inr None else map_sum id Some (re_compile r))"

definition load_cfg :: "(string \<Rightarrow> exn + pattern) \<Rightarrow> raw_cfg \<Rightarrow> exn + site_data" where
  "load_cfg re_compile cfg =
     (case compile_opt re_compile (not_found_regex cfg) of
        Inl e \<Rightarrow> Inl e
      | Inr nf \<Rightarrow>
          (case compile_opt re_compile (bad_redirect_regex cfg) of
             Inl e \<Rightarrow> Inl e
           | Inr br \<Rightarrow>
               (case compile_opt re_compile (must_contain_regex cfg) of
                  Inl e \<Rightarrow> Inl e
                | Inr must \<Rightarrow>
                    Inr \<lparr>cfg_url = raw_url cfg, cfg_method = raw_method cfg,
                         cfg_skip = raw_skip cfg, not_found_re = nf,
                         bad_redirect_re = br, must_re = must\<rparr>)))"

fun load_items ::
  "(string \<Rightarrow> exn + pattern) \<Rightarrow> (string \<times> raw_cfg) list
     \<Rightarrow> exn + (string \<times> site_data) list" where
  "load_items re_compile [] = Inr []"
| "load_items re_compile ((name, cfg) # rest) =
     (case load_cfg re_compile cfg of
        Inl e \<Rightarrow> Inl e
      | Inr sd \<Rightarrow> map_sum id ((#) (name, sd)) (load_items re_compile rest))"

definition load_sites ::
  "(string \<Rightarrow> exn + pattern) \<Rightarrow> sites_file \<Rightarrow> exn + (string \<times> site_data) list" where
  "load_sites re_compile file =
     (case file of
        NoFile \<Rightarrow> Inl FileNotFoundError
      | NotJson \<Rightarrow> Inl ValueError
      | NotObject \<Rightarrow> Inl ValueError
      | Object items \<Rightarrow> load_items re_compile items)"

text \<open>The empty dict \<open>{}\<close> of \<open>sites.get(site, {})\<close>.\<close>

definition empty_site :: site_data where
  "empty_site = \<lparr>cfg_url = None, cfg_method = None, cfg_skip = False,
                  not_found_re = None, bad_redirect_re = None, must_re = None\<rparr>"

definition is_x_site :: "string \<Rightarrow> site_data \<Rightarrow> bool" where
  "is_x_site site_name sd =
     (let s = lower (strip site_name) in
      if s \<in> {''twitter'', ''twitter/x'', ''x''} then True
      else
        (let url = lower (case cfg_url sd of None \<Rightarrow> [] | Some u \<Rightarrow> u)
         in contains ''x.com/{}'' url \<or> contains ''twitter.com/{}'' url))"

subsection \<open>generate\_username\_variations\<close>

text \<open>
  An order chosen from outside (the order of a set turned into a list, a shuffle, the
  order in which tasks complete) is given by a list of picks: each pick takes one of the
  elements that are left. Every order is the result of some picks.
\<close>

fun permute :: "nat list \<Rightarrow> 'a list \<Rightarrow> 'a list" where
  "permute picks [] = []"
| "permute [] (x # xs) = x # xs"
| "permute (p # picks) (x # xs) =
     (let i = p mod length (x # xs)
      in (x # xs) ! i # permute picks (take i (x # xs) @ drop (Suc i) (x # xs)))"

text \<open>The set \<open>variations\<close> is a list without repetition; \<open>set_add\<close> is \<open>variations.add\<close>.\<close>

definition set_add :: "'a \<Rightarrow> 'a list \<Rightarrow> 'a list" where
  "set_add x xs = (if x \<in> set xs then xs else xs @ [x])"

fun add_suffixes :: "string \<Rightarrow> int \<Rightarrow> string list \<Rightarrow> string list \<Rightarrow> string list" where
  "add_suffixes base max_variants [] variations = variations"
| "add_suffixes base max_variants (suffix # rest) variations =
     (if int (length variations) \<ge> max_variants then variations
      else add_suffixes base max_variants rest
             (set_add (base @ ''.'' @ suffix)
               (set_add (base @ ''_'' @ suffix)
                 (set_add (base @ suffix) variations))))"

fun add_prefixes :: "string \<Rightarrow> string list \<Rightarrow> string list \<Rightarrow> string list" where
  "add_prefixes base [] variations = variations"
| "add_prefixes base (prefix # rest) variations =
     add_prefixes base rest
       (set_add (prefix @ ''_'' @ base) (set_add (prefix @ base) variations))"

text \<open>\<open>xs[:n]\<close>, also for a negative \<open>n\<close>\<close>

definition slice_to :: "int \<Rightarrow> 'a list \<Rightarrow> 'a list" where
  "slice_to n xs = (if n \<ge> 0 then take (nat n) xs else take (length xs - nat (- n)) xs)"

text \<open>
  \<open>rand\<close> is the value of \<open>random.randint(0, 99)\<close>; \<open>picks\<close> decide the order of
  \<open>list(variations)\<close> after \<open>random.shuffle\<close>.
\<close>

definition generate_username_variations ::
  "nat \<Rightarrow> nat list \<Rightarrow> string \<Rightarrow> int \<Rightarrow> string list" where
  "generate_username_variations rand picks base0 max_variants =
     (let base = lower (strip base0);
          variations = [base];
          number_suffixes =
            [digits rand, ''123'', ''69'', ''88'', ''tv'', ''yt'', ''x'', ''official''];
          year_suffixes = map digits [1990..<2027];
          simple_suffixes = [''_'', ''__'', ''.'', ''pro'', ''real'', ''hq'', ''fan'', ''live''];
          variations = add_suffixes base max_variants
                         (number_suffixes @ year_suffixes @ simple_suffixes) variations;
          variations =
            (if length base > 4 then
               (let mid = length base div 2 in
                set_add (take mid base @ ''.'' @ drop mid base)
                  (set_add (take mid base @ ''_'' @ drop mid base) variations))
             else variations);
          prefixes = [''the'', ''real'', ''mr'', ''ms'', ''official''];
          variations = add_prefixes base prefixes variations;
          var_list = permute picks variations
      in slice_to max_variants var_list)"

section \<open>Scan orchestrator\<close>

text \<open>The command line options that the scan itself reads.\<close>

record args =
  include_skipped :: bool
  variants :: bool
  max_variants :: int

text \<open>
  Everything outside the program: the catalog file, \<open>re.compile\<close>, the network seen
  by the probe of a handle on a site, the network seen by \<open>session.get\<close>, the random
  number, the shuffle, and for each handle the order in which its tasks complete.
\<close>

record world =
  sites_json :: sites_file
  re_compile :: "string \<Rightarrow> exn + pattern"
  http :: "string \<Rightarrow> string \<Rightarrow> net"
  http_get :: "string \<Rightarrow> exn + page"
  randint :: nat
  shuffle :: "nat list"
  completion :: "string \<Rightarrow> nat list"

text \<open>
  The variables of \<open>run_scan\<close> that outlive a handle, and the events so far. The events
  of a probe are listed together, when the probe completes; how the requests of
  concurrent probes interleave is not modelled.
\<close>

record scan_state =
  all_results :: "string \<rightharpoonup> probe_result list"
  summary_data :: "(string \<times> nat \<times> nat) list"
  bios_cache :: "string \<rightharpoonup> string"
  trace :: "event list"

text \<open>
  The loop \<open>for fut in asyncio.as_completed(tasks)\<close> over the tasks in the order of
  their completion: \<open>await fut\<close> raises what the task raised.
\<close>

fun collect ::
  "(string \<times> site_data) list \<Rightarrow> ((exn + probe_result) \<times> event list) list
     \<Rightarrow> probe_result list \<Rightarrow> bool \<Rightarrow> event list
     \<Rightarrow> exn + probe_result list \<times> bool \<times> event list" where
  "collect sites [] results x_exists evs = Inr (results, x_exists, evs)"
| "collect sites ((Inl e, pevs) # futs) results x_exists evs = Inl e"
| "collect sites ((Inr (site, exists, url), pevs) # futs) results x_exists evs =
     collect sites futs (results @ [(site, exists, url)])
       (if exists = Some True
           \<and> is_x_site site (case map_of sites site of None \<Rightarrow> empty_site | Some sd \<Rightarrow> sd)
        then True else x_exists)
       (evs @ pevs @ [Advance])"

text \<open>
  The list \<open>tasks\<close>: one call of \<open>check_username\<close> for each item of \<open>sites\<close>, each
  with its outcome and its events.
\<close>

definition probe_tasks ::
  "world \<Rightarrow> (string \<times> site_data) list \<Rightarrow> string
     \<Rightarrow> ((exn + probe_result) \<times> event list) list" where
  "probe_tasks w sites uname =
     map (\<lambda>(site_name, sd). check_username (http w uname site_name) site_name sd uname) sites"

text \<open>The body of the loop \<open>for uname in usernames_to_check\<close>.\<close>

definition scan_username ::
  "world \<Rightarrow> (string \<times> site_data) list \<Rightarrow> string \<Rightarrow> scan_state \<Rightarrow> exn + scan_state" where
  "scan_username w sites uname st =
     (let tasks = probe_tasks w sites uname;
          futs = permute (completion w uname) tasks
      in case collect sites futs [] False [] of
           Inl e \<Rightarrow> Inl e
         | Inr (results, x_exists, evs) \<Rightarrow>
             (case (if x_exists then fetch_x_bio (http_get w) uname else (Inr None, [])) of
                (Inl e, bevs) \<Rightarrow> Inl e
              | (Inr bio, bevs) \<Rightarrow>
                  (let bios = (case bio of
                                 None \<Rightarrow> bios_cache st
                               | Some b \<Rightarrow>
                                   if b \<noteq> [] then (bios_cache st)(uname \<mapsto> b)
                                   else bios_cache st);
                       found = length (filter (\<lambda>(_, e, _). e = Some True) results)
                   in Inr \<lparr>all_results = (all_results st)(uname \<mapsto> results),
                           summary_data = summary_data st @ [(uname, found, length results)],
                           bios_cache = bios,
                           trace = trace st @ evs @ bevs\<rparr>)))"

fun scan_loop ::
  "world \<Rightarrow> (string \<times> site_data) list \<Rightarrow> string list \<Rightarrow> scan_state \<Rightarrow> exn + scan_state" where
  "scan_loop w sites [] st = Inr st"
| "scan_loop w sites (uname # rest) st =
     (case scan_username w sites uname st of
        Inl e \<Rightarrow> Inl e
      | Inr st' \<Rightarrow> scan_loop w sites rest st')"

definition initial_state :: scan_state where
  "initial_state = \<lparr>all_results = Map.empty, summary_data = [], bios_cache = Map.empty, trace = []\<rparr>"

definition usernames_to_check :: "world \<Rightarrow> args \<Rightarrow> string \<Rightarrow> string list" where
  "usernames_to_check w a base =
     (if variants a
      then generate_username_variations (randint w) (shuffle w) base (max_variants a)
      else [base])"

definition included_sites :: "args \<Rightarrow> (string \<times> site_data) list \<Rightarrow> (string \<times> site_data) list" where
  "included_sites a sites_all =
     filter (\<lambda>(site_name, cfg). \<not> (cfg_skip cfg \<and> \<not> include_skipped a)) sites_all"

text \<open>
  \<open>run_scan\<close> up to the end of the scan; the summary table and the export that follow
  only read the state.
\<close>

definition run_scan :: "world \<Rightarrow> args \<Rightarrow> string \<Rightarrow> exn + scan_state" where
  "run_scan w a username =
     (case load_sites (re_compile w) (sites_json w) of
        Inl e \<Rightarrow> Inl e
      | Inr sites_all \<Rightarrow>
          (let sites = included_sites a sites_all;
               base = lower (strip username)
           in if base = [] then Inl ValueError
              else scan_loop w sites (usernames_to_check w a base) initial_state))"

section \<open>Observations on traces and texts\<close>

text \<open>The durations of the sleeps of a trace, in order.\<close>

fun sleeps :: "event list \<Rightarrow> rat list" where
  "sleeps [] = []"
| "sleeps (Sleep d # evs) = d # sleeps evs"
| "sleeps (_ # evs) = sleeps evs"

text \<open>
  The trace of the attempts 0 to \<open>k - 1\<close> of a probe when each of them is followed by
  another attempt: the requests of the attempt, then its sleep of \<open>0.25 * 2 ** attempt\<close>
  seconds.
\<close>

fun backoff_trace ::
  "net \<Rightarrow> string \<Rightarrow> site_data \<Rightarrow> string \<Rightarrow> string \<Rightarrow> nat \<Rightarrow> event list" where
  "backoff_trace net site_name sd url method 0 = []"
| "backoff_trace net site_name sd url method (Suc k) =
     backoff_trace net site_name sd url method k
       @ snd (attempt_once net site_name sd url method k) @ [Sleep (0.25 * 2 ^ k)]"

text \<open>The URLs of the enrichment fetches of a trace, in order.\<close>

fun gets :: "event list \<Rightarrow> string list" where
  "gets [] = []"
| "gets (Get u # evs) = u # gets evs"
| "gets (_ # evs) = gets evs"

text \<open>The markup pattern \<open><[^>]+>\<close> has a match in the text.\<close>

definition has_tag :: "string \<Rightarrow> bool" where
  "has_tag s = (re_search match_tag s \<noteq> None)"

text \<open>Every whitespace character is a single blank between other characters or at an end.\<close>

fun ws_collapsed :: "string \<Rightarrow> bool" where
  "ws_collapsed [] = True"
| "ws_collapsed [c] = (if isspace c then c = CHR '' '' else True)"
| "ws_collapsed (c # d # cs) =
     ((if isspace c then c = CHR '' '' \<and> \<not> isspace d else True) \<and> ws_collapsed (d # cs))"

text \<open>Some result is Exists on a site that \<open>is_x_site\<close> accepts.\<close>

definition x_hit :: "(string \<times> site_data) list \<Rightarrow> probe_result list \<Rightarrow> bool" where
  "x_hit sites results =
     list_ex (\<lambda>(site, exists, url).
                exists = Some True
                \<and> is_x_site site (case map_of sites site of None \<Rightarrow> empty_site | Some sd \<Rightarrow> sd))
             results"

text \<open>
  The enrichment fetch fails: the request or the reading of the text raises an
  \<open>Exception\<close>, the status is not 200, or neither pattern has a match.
\<close>

definition enrichment_fails :: "(string \<Rightarrow> exn + page) \<Rightarrow> string \<Rightarrow> bool" where
  "enrichment_fails get username =
     (case get (''https://x.com/'' @ username) of
        Inl e \<Rightarrow> is_Exception e
      | Inr resp \<Rightarrow>
          page_status resp \<noteq> 200
          \<or> (case page_text resp of
                Inl e \<Rightarrow> is_Exception e
              | Inr html \<Rightarrow>
                  re_search match_description html = None
                  \<and> re_search match_meta html = None))"

section \<open>Example inputs\<close>

text \<open>
  A pattern that matches exactly where one given character occurs (the regular expression
  made of that character, escaped; the character is not a letter).
\<close>

definition char_pattern :: "char \<Rightarrow> pattern" where
  "char_pattern c t = (of_char c \<in> set t)"

definition plain_site :: site_data where
  "plain_site = \<lparr>cfg_url = Some ''https://ex.com/{}'', cfg_method = None, cfg_skip = False,
                  not_found_re = None, bad_redirect_re = None, must_re = None\<rparr>"

text \<open>A response with a body of one chunk.\<close>

definition body_response :: "int \<Rightarrow> byte list \<Rightarrow> response" where
  "body_response st body =
     \<lparr>resp_status = st, resp_url = ''https://ex.com/alice'', resp_history = [],
      resp_content = [Inr body]\<rparr>"

text \<open>A body of sixteen full chunks of the letter a.\<close>

definition ascii_chunk :: "byte list" where
  "ascii_chunk = replicate 8192 0x61"

definition big_response :: response where
  "big_response =
     \<lparr>resp_status = 200, resp_url = ''https://ex.com/alice'', resp_history = [],
      resp_content =
        [Inr ascii_chunk, Inr ascii_chunk, Inr ascii_chunk, Inr ascii_chunk,
         Inr ascii_chunk, Inr ascii_chunk, Inr ascii_chunk, Inr ascii_chunk,
         Inr ascii_chunk, Inr ascii_chunk, Inr ascii_chunk, Inr ascii_chunk,
         Inr ascii_chunk, Inr ascii_chunk, Inr ascii_chunk, Inr ascii_chunk]\<rparr>"

text \<open>A network on which every request fails, and one that throttles HEAD only.\<close>

definition dead_net :: net where
  "dead_net = (\<lambda>attempt m. Inl ClientError)"

definition throttled_net :: net where
  "throttled_net = (\<lambda>attempt m. Inr (body_response (if m = ''HEAD'' then 429 else 404) []))"

definition steady_net :: "int \<Rightarrow> net" where
  "steady_net st = (\<lambda>attempt m. Inr (body_response st []))"

text \<open>
  A network whose first attempt fails and which throttles HEAD afterwards, and one that
  throttles HEAD and lets every GET time out.
\<close>

definition flaky_net :: net where
  "flaky_net = (\<lambda>attempt m. if attempt = 0 then Inl ClientError else throttled_net attempt m)"

definition get_refused_net :: net where
  "get_refused_net =
     (\<lambda>attempt m. if m = ''HEAD'' then Inr (body_response 429 []) else Inl TimeoutError)"

text \<open>Pages for the enrichment step: every URL is answered with status 200 and the text.\<close>

definition page_get :: "string \<Rightarrow> string \<Rightarrow> exn + page" where
  "page_get txt = (\<lambda>url. Inr \<lparr>page_status = 200, page_text = Inr txt\<rparr>)"

definition description_page :: string where
  \<open>description_page =
     ''<div data-testid="UserDescription" class="css"><span>Hi   <b>there</b></span>  </DIV>''\<close>

definition long_page :: string where
  \<open>long_page = ''<p data-testid="UserDescription">'' @ replicate 85 CHR ''a'' @ ''</div>''\<close>

definition meta_page :: string where
  \<open>meta_page = ''<html><META  name="description"  content="Hello   <b>w</b>"/>''\<close>

text \<open>A catalog of two sites, one of them the high-signal platform, and a world for it.\<close>

definition x_site :: site_data where
  "x_site = \<lparr>cfg_url = Some ''https://x.com/{}'', cfg_method = Some ''GET'', cfg_skip = False,
              not_found_re = Some (char_pattern CHR ''!''), bad_redirect_re = None,
              must_re = None\<rparr>"

definition example_sites :: "(string \<times> site_data) list" where
  "example_sites = [(''ex'', plain_site), (''X'', x_site)]"

definition example_raw :: "(string \<times> raw_cfg) list" where
  "example_raw =
     [(''ex'', \<lparr>raw_url = Some ''https://ex.com/{}'', raw_method = None, raw_skip = False,
               not_found_regex = None, bad_redirect_regex = None, must_contain_regex = None\<rparr>),
      (''X'', \<lparr>raw_url = Some ''https://x.com/{}'', raw_method = Some ''GET'', raw_skip = False,
               not_found_regex = Some ''!'', bad_redirect_regex = None,
               must_contain_regex = None\<rparr>)]"

definition example_world :: world where
  "example_world =
     \<lparr>sites_json = Object example_raw,
      re_compile = (\<lambda>r. case r of [c] \<Rightarrow> Inr (char_pattern c) | _ \<Rightarrow> Inl RegexError),
      http = (\<lambda>uname site_name. if site_name = ''X'' then steady_net 200 else steady_net 404),
      http_get = page_get meta_page,
      randint = 7,
      shuffle = [],
      completion = (\<lambda>uname. [1])\<rparr>"

text \<open>The options of a plain scan, and a catalog in which one profile has no url.\<close>

definition plain_args :: args where
  "plain_args = \<lparr>include_skipped = False, variants = False, max_variants = 12\<rparr>"

definition broken_raw :: "(string \<times> raw_cfg) list" where
  "broken_raw =
     [(''ex'', \<lparr>raw_url = Some ''https://ex.com/{}'', raw_method = None, raw_skip = False,
               not_found_regex = None, bad_redirect_regex = None, must_contain_regex = None\<rparr>),
      (''nourl'', \<lparr>raw_url = None, raw_method = None, raw_skip = False,
               not_found_regex = None, bad_redirect_regex = None, must_contain_regex = None\<rparr>)]"

definition broken_world :: world where
  "broken_world = example_world\<lparr>sites_json := Object broken_raw\<rparr>"

text \<open>
  A catalog whose only profile is the site \<open>ex\<close> at \<open>ex.com\<close>, with a pattern for its
  not-found page, and a world in which every request is answered with status 200 and an
  empty body.
\<close>

definition lookalike_site :: site_data where
  "lookalike_site = plain_site\<lparr>not_found_re := Some (char_pattern CHR ''!'')\<rparr>"

definition lookalike_raw :: "(string \<times> raw_cfg) list" where
  "lookalike_raw =
     [(''ex'', \<lparr>raw_url = Some ''https://ex.com/{}'', raw_method = None, raw_skip = False,
               not_found_regex = Some ''!'', bad_redirect_regex = None,
               must_contain_regex = None\<rparr>)]"

definition lookalike_world :: world where
  "lookalike_world =
     example_world\<lparr>sites_json := Object lookalike_raw,
                    http := (\<lambda>uname site_name. steady_net 200)\<rparr>"

section \<open>Properties of the response classifier\<close>

subsection \<open>Decoding and the size limit\<close>

lemma length_decode_ignore: "length (decode_ignore bs) \<le> length bs"
proof (induction bs rule: decode_ignore.induct)
  case 1
  then show ?case by simp
next
  case (2 b bs)
  show ?case
  proof (cases "utf8_head (b # bs)")
    case None
    with 2 show ?thesis by (simp del: utf8_head.simps)
  next
    case (Some p)
    obtain cp k where p: "p = (cp, k)" by (cases p)
    have "length (decode_ignore (drop (k - 1) bs)) \<le> length (drop (k - 1) bs)"
      using 2(2) [OF Some p [symmetric]] by simp
    then show ?thesis using Some p by (simp del: utf8_head.simps)
  qed
qed

lemma decode_ignore_ascii: "decode_ignore (replicate n (0x61 :: byte)) = replicate n 97"
  by (induction n) simp_all

lemma decode_ascii_chunk: "decode_ignore ascii_chunk = replicate 8192 97"
  by (simp add: ascii_chunk_def decode_ignore_ascii)

lemma read_loop_bound:
  assumes "read_loop content limit chunks read = Inr txt"
    and "read = int (length (concat chunks))"
    and "read < limit"
    and "\<forall>bs. Inr bs \<in> set content \<longrightarrow> length bs \<le> m"
  shows "int (length txt) < limit + int m"
  using assms
proof (induction content limit chunks read rule: read_loop.induct)
  case (1 limit_chars chunks read)
  then show ?case by simp
next
  case (2 e rest limit_chars chunks read)
  then show ?case by simp
next
  case (3 chunk rest limit_chars chunks read)
  have len: "length (decode_ignore chunk) \<le> m"
    using 3(5) length_decode_ignore [of chunk] by (simp add: le_trans)
  show ?case
  proof (cases "read + int (length (decode_ignore chunk)) \<ge> limit_chars")
    case True
    then have "txt = concat (chunks @ [decode_ignore chunk])"
      using 3(2) by (simp add: Let_def)
    then show ?thesis using 3(3,4) len by simp
  next
    case False
    then have "read_loop rest limit_chars (chunks @ [decode_ignore chunk])
                 (read + int (length (decode_ignore chunk))) = Inr txt"
      using 3(2) by (simp add: Let_def)
    moreover have "read + int (length (decode_ignore chunk))
        = int (length (concat (chunks @ [decode_ignore chunk])))"
      using 3(3) by simp
    ultimately show ?thesis
      using 3(1) [OF refl refl refl] False 3(5) by simp
  qed
qed

lemma read_big_response: "read_limited_text big_response 120000 = Inr (replicate 122880 97)"
  by (simp add: read_limited_text_def big_response_def decode_ascii_chunk Let_def
        replicate_add [symmetric])

lemma read_loop_exact:
  assumes "read_loop content limit chunks read = Inr txt"
    and "read = int (length (concat chunks))"
    and "read < limit"
  shows "\<exists>bss. map Inr bss = take (length bss) content
           \<and> txt = concat chunks @ concat (map decode_ignore bss)
           \<and> (bss \<noteq> [] \<longrightarrow>
                int (length (concat chunks @ concat (map decode_ignore (butlast bss)))) < limit)
           \<and> (length bss < length content \<longrightarrow> limit \<le> int (length txt))"
  using assms
proof (induction content limit chunks read rule: read_loop.induct)
  case (1 limit_chars chunks read)
  then show ?case by simp
next
  case (2 e rest limit_chars chunks read)
  then show ?case by simp
next
  case (3 chunk rest limit_chars chunks read)
  let ?s = "decode_ignore chunk"
  show ?case
  proof (cases "read + int (length ?s) \<ge> limit_chars")
    case True
    then have t: "txt = concat chunks @ ?s"
      using 3(2) by (simp add: Let_def)
    show ?thesis
      using t True 3(3,4) by (intro exI [of _ "[chunk]"]) simp
  next
    case False
    then have "read_loop rest limit_chars (chunks @ [?s]) (read + int (length ?s)) = Inr txt"
      using 3(2) by (simp add: Let_def)
    moreover have "read + int (length ?s) = int (length (concat (chunks @ [?s])))"
      using 3(3) by simp
    ultimately obtain bss where b: "map Inr bss = take (length bss) rest"
      "txt = concat (chunks @ [?s]) @ concat (map decode_ignore bss)"
      "bss \<noteq> [] \<longrightarrow>
         int (length (concat (chunks @ [?s]) @ concat (map decode_ignore (butlast bss))))
           < limit_chars"
      "length bss < length rest \<longrightarrow> limit_chars \<le> int (length txt)"
      using 3(1) [OF refl refl refl] False by fastforce
    show ?thesis
    proof (intro exI [of _ "chunk # bss"] conjI)
      show "map Inr (chunk # bss) = take (length (chunk # bss)) (Inr chunk # rest)"
        using b(1) by simp
      show "txt = concat chunks @ concat (map decode_ignore (chunk # bss))"
        using b(2) by simp
      show "chunk # bss \<noteq> [] \<longrightarrow>
         int (length (concat chunks @ concat (map decode_ignore (butlast (chunk # bss)))))
           < limit_chars"
        using b(3) 3(3,4) by (cases "bss = []") simp_all
      show "length (chunk # bss) < length (Inr chunk # rest) \<longrightarrow> limit_chars \<le> int (length txt)"
        using b(4) by simp
    qed
  qed
qed

text \<open>
  C7, as stated, fails: the text is not cut at 120,000 characters. On a body of full
  chunks of ASCII letters the fifteenth chunk brings the count to 122,880, and all of it
  is in the text the patterns are matched against.
\<close>

theorem read_limited_text_exceeds_limit:
  "\<not> (\<forall>txt. read_limited_text big_response 120000 = Inr txt \<longrightarrow> length txt \<le> 120000)"
  by (simp add: read_big_response)

text \<open>
  C7, amended. Whenever the body is fetched, the text is the decoded chunks of the body,
  whole and in order, up to and including the first chunk with which the count of
  decoded characters reaches 120,000, or all the chunks when the count never reaches it.
  The chunks before the last one read count fewer than 120,000 characters, and when a
  chunk of the body is left unread the text has at least 120,000 characters. Nothing is
  cut from the text: with chunks of at most 8,192 bytes (the argument of
  \<open>iter_chunked\<close>) it has fewer than 120,000 + 8,192 characters.
\<close>

theorem read_limited_text_soft_limit:
  assumes "read_limited_text resp 120000 = Inr txt"
  shows "\<exists>bss. map Inr bss = take (length bss) (resp_content resp)
           \<and> txt = concat (map decode_ignore bss)
           \<and> (bss \<noteq> [] \<longrightarrow> length (concat (map decode_ignore (butlast bss))) < 120000)
           \<and> (length bss < length (resp_content resp) \<longrightarrow> 120000 \<le> length txt)
           \<and> ((\<forall>bs. Inr bs \<in> set (resp_content resp) \<longrightarrow> length bs \<le> 8192)
                \<longrightarrow> length txt < 120000 + 8192)"
proof -
  have r: "read_loop (resp_content resp) 120000 [] 0 = Inr txt"
    using assms by (simp add: read_limited_text_def)
  obtain bss where b: "map Inr bss = take (length bss) (resp_content resp)"
      "txt = concat [] @ concat (map decode_ignore bss)"
      "bss \<noteq> [] \<longrightarrow>
         int (length (concat [] @ concat (map decode_ignore (butlast bss)))) < 120000"
      "length bss < length (resp_content resp) \<longrightarrow> 120000 \<le> int (length txt)"
    using read_loop_exact [OF r] by auto
  have bound: "length txt < 120000 + 8192"
    if "\<forall>bs. Inr bs \<in> set (resp_content resp) \<longrightarrow> length bs \<le> 8192"
  proof -
    have "int (length txt) < 120000 + int 8192"
      using r that by (intro read_loop_bound [where chunks = "[]" and read = 0]) simp_all
    then show ?thesis by simp
  qed
  show ?thesis
    using b bound by (intro exI [of _ bss]) simp
qed

theorem read_limited_text_soft_limit_witness:
  "read_limited_text big_response 120000 = Inr (replicate 122880 97)
   \<and> (\<exists>bss. map Inr bss = take (length bss) (resp_content big_response)
         \<and> replicate 122880 (97::nat) = concat (map decode_ignore bss))
   \<and> 120000 \<le> length (replicate 122880 (97::nat))
   \<and> length (replicate 122880 (97::nat)) < 120000 + 8192"
proof -
  have h: "\<forall>bs. Inr bs \<in> set (resp_content big_response) \<longrightarrow> length bs \<le> 8192"
    by (simp add: big_response_def ascii_chunk_def)
  obtain bss where b: "map Inr bss = take (length bss) (resp_content big_response)"
    "replicate 122880 (97::nat) = concat (map decode_ignore bss)"
    "length (replicate 122880 (97::nat)) < 120000 + 8192"
    using read_limited_text_soft_limit [OF read_big_response] h by blast
  have "\<exists>bss. map Inr bss = take (length bss) (resp_content big_response)
         \<and> replicate 122880 (97::nat) = concat (map decode_ignore bss)"
    using b(1,2) by blast
  then show ?thesis
    using read_big_response by simp
qed

subsection \<open>The decision procedure\<close>

text \<open>
  C3. A response with status 404 or 410 is classified NotFound, whatever patterns the
  profile has and whatever the final URL, the redirect history and the body are: the
  status test comes first.
\<close>

theorem interpret_response_hard_not_found:
  assumes "resp_status resp = 404 \<or> resp_status resp = 410"
  shows "interpret_response site_name sd url resp = Inr (site_name, NotFound, url)"
  using assms by (auto simp: interpret_response_def)

theorem interpret_response_hard_not_found_witness:
  "interpret_response ''ex''
     (plain_site\<lparr>bad_redirect_re := Some (char_pattern CHR ''?''),
                 must_re := Some (char_pattern CHR ''@'')\<rparr>)
     ''https://ex.com/alice''
     \<lparr>resp_status = 404, resp_url = ''https://ex.com/login?next=alice'', resp_history = [],
      resp_content = [Inr [0x40]]\<rparr>
   = Inr (''ex'', NotFound, ''https://ex.com/alice'')"
  by (rule interpret_response_hard_not_found) simp

text \<open>
  C2, as stated, fails: a response with status 404 whose final URL matches the
  bad-redirect pattern is classified NotFound, not Uncertain.
\<close>

theorem bad_redirect_after_hard_not_found:
  "looks_like_bad_redirect (plain_site\<lparr>bad_redirect_re := Some (char_pattern CHR ''?'')\<rparr>)
     \<lparr>resp_status = 404, resp_url = ''https://ex.com/login?next=bob'', resp_history = [],
      resp_content = []\<rparr>
   \<and> interpret_response ''ex'' (plain_site\<lparr>bad_redirect_re := Some (char_pattern CHR ''?'')\<rparr>)
       ''https://ex.com/bob''
       \<lparr>resp_status = 404, resp_url = ''https://ex.com/login?next=bob'', resp_history = [],
        resp_content = []\<rparr>
     = Inr (''ex'', NotFound, ''https://ex.com/bob'')"
  by (simp add: interpret_response_def looks_like_bad_redirect_def plain_site_def
        char_pattern_def codepoints_def)

text \<open>
  C2, amended. When the status is neither 404 nor 410 and the bad-redirect pattern of the
  profile matches the final URL or a URL of the redirect history, the response is
  classified Uncertain, whatever the status (200 included), the other patterns and the
  body are: the test comes before every rule for status 200.
\<close>

theorem interpret_response_bad_redirect:
  assumes "bad_redirect_re sd = Some bad_re"
    and "bad_re (codepoints (resp_url resp))
         \<or> (\<exists>h \<in> set (resp_history resp). bad_re (codepoints h))"
    and "resp_status resp \<notin> {404, 410}"
  shows "interpret_response site_name sd url resp = Inr (site_name, Uncertain, url)"
  using assms
  by (auto simp: interpret_response_def looks_like_bad_redirect_def list_ex_iff)

theorem interpret_response_bad_redirect_witness:
  "interpret_response ''ex''
     (plain_site\<lparr>bad_redirect_re := Some (char_pattern CHR ''?''),
                 must_re := Some (char_pattern CHR ''@'')\<rparr>)
     ''https://ex.com/bob''
     \<lparr>resp_status = 200, resp_url = ''https://ex.com/bob'',
      resp_history = [''https://ex.com/login?next=bob''], resp_content = [Inr [0x40]]\<rparr>
   = Inr (''ex'', Uncertain, ''https://ex.com/bob'')"
  by (rule interpret_response_bad_redirect [where bad_re = "char_pattern CHR ''?''"])
     (simp_all add: plain_site_def char_pattern_def codepoints_def)

text \<open>
  C1. For a response with status 200 that is no bad redirect: without a not-found
  pattern and a must-contain pattern the verdict is Uncertain, and the body is not
  read. Otherwise the body is read (an exception met while reading is raised), and on
  the text \<open>body\<close> that was read: a match of the not-found pattern gives NotFound;
  else, with a must-contain pattern, a match gives Exists and no match gives Uncertain;
  else (only the not-found pattern, which did not match) the verdict is Exists.
\<close>

theorem interpret_response_status_200:
  assumes "resp_status resp = 200" and "\<not> looks_like_bad_redirect sd resp"
  shows "(not_found_re sd = None \<and> must_re sd = None \<longrightarrow>
            interpret_response site_name sd url resp = Inr (site_name, Uncertain, url))
       \<and> ((not_found_re sd \<noteq> None \<or> must_re sd \<noteq> None)
            \<and> read_limited_text resp 120000 = Inl e \<longrightarrow>
            interpret_response site_name sd url resp = Inl e)
       \<and> (read_limited_text resp 120000 = Inr body
            \<and> not_found_re sd = Some nf \<and> nf body \<longrightarrow>
            interpret_response site_name sd url resp = Inr (site_name, NotFound, url))
       \<and> (read_limited_text resp 120000 = Inr body
            \<and> (not_found_re sd = None \<or> (\<exists>nf'. not_found_re sd = Some nf' \<and> \<not> nf' body))
            \<and> must_re sd = Some must \<longrightarrow>
            interpret_response site_name sd url resp =
              Inr (site_name, if must body then Exists else Uncertain, url))
       \<and> (read_limited_text resp 120000 = Inr body
            \<and> not_found_re sd = Some nf \<and> \<not> nf body \<and> must_re sd = None \<longrightarrow>
            interpret_response site_name sd url resp = Inr (site_name, Exists, url))"
  using assms
  by (auto simp: interpret_response_def split: sum.splits option.splits)

theorem interpret_response_status_200_witness:
  "interpret_response ''ex'' plain_site ''https://ex.com/alice'' (body_response 200 [0x40])
     = Inr (''ex'', Uncertain, ''https://ex.com/alice'')
   \<and> interpret_response ''ex'' (plain_site\<lparr>not_found_re := Some (char_pattern CHR ''!'')\<rparr>)
       ''https://ex.com/alice''
       \<lparr>resp_status = 200, resp_url = ''https://ex.com/alice'', resp_history = [],
        resp_content = [Inl ClientError]\<rparr>
     = Inl ClientError
   \<and> interpret_response ''ex''
       (plain_site\<lparr>not_found_re := Some (char_pattern CHR ''!''),
                   must_re := Some (char_pattern CHR ''@'')\<rparr>)
       ''https://ex.com/alice'' (body_response 200 [0x40, 0x21])
     = Inr (''ex'', NotFound, ''https://ex.com/alice'')
   \<and> interpret_response ''ex'' (plain_site\<lparr>must_re := Some (char_pattern CHR ''@'')\<rparr>)
       ''https://ex.com/alice'' (body_response 200 [0x40])
     = Inr (''ex'', Exists, ''https://ex.com/alice'')
   \<and> interpret_response ''ex'' (plain_site\<lparr>must_re := Some (char_pattern CHR ''@'')\<rparr>)
       ''https://ex.com/alice'' (body_response 200 [0x21])
     = Inr (''ex'', Uncertain, ''https://ex.com/alice'')
   \<and> interpret_response ''ex'' (plain_site\<lparr>not_found_re := Some (char_pattern CHR ''!'')\<rparr>)
       ''https://ex.com/alice'' (body_response 200 [0x40])
     = Inr (''ex'', Exists, ''https://ex.com/alice'')"
proof -
  let ?u = "''https://ex.com/alice''"
  let ?nf = "char_pattern CHR ''!''"
  let ?must = "char_pattern CHR ''@''"
  let ?broken = "\<lparr>resp_status = 200, resp_url = ?u, resp_history = [],
                  resp_content = [Inl ClientError]\<rparr>"
  have st: "resp_status (body_response 200 b) = 200" "resp_status ?broken = 200" for b
    by (simp_all add: body_response_def)
  have nb: "\<not> looks_like_bad_redirect (plain_site\<lparr>not_found_re := x, must_re := y\<rparr>) r"
           "\<not> looks_like_bad_redirect (plain_site\<lparr>not_found_re := x\<rparr>) r"
           "\<not> looks_like_bad_redirect (plain_site\<lparr>must_re := y\<rparr>) r"
           "\<not> looks_like_bad_redirect plain_site r" for x y r
    by (simp_all add: looks_like_bad_redirect_def plain_site_def)
  have rd: "read_limited_text (body_response 200 [0x40]) 120000 = Inr [64]"
       "read_limited_text (body_response 200 [0x21]) 120000 = Inr [33]"
       "read_limited_text (body_response 200 [0x40, 0x21]) 120000 = Inr [64, 33]"
       "read_limited_text ?broken 120000 = Inl ClientError"
    by (simp_all add: read_limited_text_def body_response_def)
  have pat: "?nf [64, 33]" "\<not> ?nf [64]" "?must [64]" "\<not> ?must [33]"
    by (simp_all add: char_pattern_def)
  have sel: "not_found_re plain_site = None" "must_re plain_site = None"
    by (simp_all add: plain_site_def)
  have 1: "interpret_response ''ex'' plain_site ?u (body_response 200 [0x40])
     = Inr (''ex'', Uncertain, ?u)"
    using interpret_response_status_200 [where resp = "body_response 200 [0x40]"
        and sd = plain_site and site_name = "''ex''" and url = ?u] st nb sel
    by simp
  have 2: "interpret_response ''ex'' (plain_site\<lparr>not_found_re := Some ?nf\<rparr>) ?u ?broken
     = Inl ClientError"
    using interpret_response_status_200 [where resp = ?broken
        and sd = "plain_site\<lparr>not_found_re := Some ?nf\<rparr>" and site_name = "''ex''"
        and url = ?u and e = ClientError] st nb rd
    by simp
  have 3: "interpret_response ''ex'' (plain_site\<lparr>not_found_re := Some ?nf, must_re := Some ?must\<rparr>)
       ?u (body_response 200 [0x40, 0x21]) = Inr (''ex'', NotFound, ?u)"
    using interpret_response_status_200 [where resp = "body_response 200 [0x40, 0x21]"
        and sd = "plain_site\<lparr>not_found_re := Some ?nf, must_re := Some ?must\<rparr>"
        and site_name = "''ex''" and url = ?u and body = "[64, 33]" and nf = ?nf] st nb rd pat
    by simp
  have 4: "interpret_response ''ex'' (plain_site\<lparr>must_re := Some ?must\<rparr>)
       ?u (body_response 200 [0x40]) = Inr (''ex'', Exists, ?u)"
    using interpret_response_status_200 [where resp = "body_response 200 [0x40]"
        and sd = "plain_site\<lparr>must_re := Some ?must\<rparr>"
        and site_name = "''ex''" and url = ?u and body = "[64]" and must = ?must] st nb rd pat sel
    by simp
  have 5: "interpret_response ''ex'' (plain_site\<lparr>must_re := Some ?must\<rparr>)
       ?u (body_response 200 [0x21]) = Inr (''ex'', Uncertain, ?u)"
    using interpret_response_status_200 [where resp = "body_response 200 [0x21]"
        and sd = "plain_site\<lparr>must_re := Some ?must\<rparr>"
        and site_name = "''ex''" and url = ?u and body = "[33]" and must = ?must] st nb rd pat sel
    by simp
  have 6: "interpret_response ''ex'' (plain_site\<lparr>not_found_re := Some ?nf\<rparr>)
       ?u (body_response 200 [0x40]) = Inr (''ex'', Exists, ?u)"
    using interpret_response_status_200 [where resp = "body_response 200 [0x40]"
        and sd = "plain_site\<lparr>not_found_re := Some ?nf\<rparr>"
        and site_name = "''ex''" and url = ?u and body = "[64]" and nf = ?nf] st nb rd pat sel
    by simp
  show ?thesis using 1 2 3 4 5 6 by simp
qed

section \<open>Properties of the probe executor\<close>

lemma sleeps_append: "sleeps (xs @ ys) = sleeps xs @ sleeps ys"
  by (induction xs rule: sleeps.induct) simp_all

lemma upper_HEAD: "upper ''HEAD'' = ''HEAD''"
  by code_simp

lemma upper_GET: "upper ''GET'' = ''GET''"
  by code_simp

lemma upper_get: "upper ''get'' = ''GET''"
  by code_simp

lemma attempt_once_events:
  "snd (attempt_once net site_name sd url method a) = [Request method url] \<or>
   (method = ''HEAD'' \<and>
    snd (attempt_once net site_name sd url method a) = [Request ''HEAD'' url, Request ''GET'' url])"
  by (auto simp: attempt_once_def split: sum.splits)

lemma attempt_once_count:
  "count_list (snd (attempt_once net site_name sd url method a)) (Request method url) = 1"
  using attempt_once_events [of net site_name sd url "method" a] by auto

lemma attempt_once_sleeps:
  "sleeps (snd (attempt_once net site_name sd url method a)) = []"
  using attempt_once_events [of net site_name sd url "method" a] by auto

lemma attempts_loop_fail:
  assumes "fst (attempt_once net site_name sd url method a) = Inl e" and "is_Exception e"
  shows "attempts_loop net site_name sd url method (a # rest) =
           (if a = 2
            then (Inr (site_name, None, url), snd (attempt_once net site_name sd url method a))
            else (fst (attempts_loop net site_name sd url method rest),
                  snd (attempt_once net site_name sd url method a) @ [Sleep (0.25 * 2 ^ a)] @
                  snd (attempts_loop net site_name sd url method rest)))"
  using assms
  by (cases "attempt_once net site_name sd url method a") (auto split: prod.splits)

lemma attempts_loop_done:
  assumes "attempt_once net site_name sd url method a = (Inr v, evs)"
  shows "attempts_loop net site_name sd url method (a # rest) = (Inr v, evs)"
  using assms by simp

lemma attempts_loop_first:
  "\<exists>rest'. snd (attempts_loop net site_name sd url method (a # rest)) = Request method url # rest'"
proof -
  obtain r evs where ao: "attempt_once net site_name sd url method a = (r, evs)"
    by (cases "attempt_once net site_name sd url method a")
  then have "\<exists>t. evs = Request method url # t"
    using attempt_once_events [of net site_name sd url "method" a] by auto
  then obtain t where t: "evs = Request method url # t" ..
  show ?thesis
    using ao t by (auto split: sum.splits prod.splits)
qed

text \<open>
  C4. When the URL is built and each of the three attempts ends in an exception that is
  an \<open>Exception\<close> (a transport error, a timeout, a read error of the body, or any
  other), the probe returns Uncertain with the URL it built and raises nothing. Its
  trace is the one of attempt 0, a sleep of 0.25 s, attempt 1, a sleep of 0.5 s and
  attempt 2: the configured method is requested exactly three times, and the only
  sleeps are these two.
\<close>

theorem check_username_all_attempts_fail:
  assumes url: "build_url sd username = Inr url"
    and m: "method = upper (case cfg_method sd of None \<Rightarrow> ''HEAD'' | Some m \<Rightarrow> m)"
    and fail: "\<forall>a<3. \<exists>e. fst (attempt_once net site_name sd url method a) = Inl e \<and> is_Exception e"
  shows "fst (check_username net site_name sd username) = Inr (site_name, Uncertain, url)
       \<and> snd (check_username net site_name sd username) =
            snd (attempt_once net site_name sd url method 0) @ [Sleep 0.25] @
            snd (attempt_once net site_name sd url method 1) @ [Sleep 0.5] @
            snd (attempt_once net site_name sd url method 2)
       \<and> count_list (snd (check_username net site_name sd username)) (Request method url) = 3
       \<and> sleeps (snd (check_username net site_name sd username)) = [0.25, 0.5]"
proof -
  obtain e0 where e0: "fst (attempt_once net site_name sd url method 0) = Inl e0" "is_Exception e0"
    using fail [rule_format, of 0] by auto
  obtain e1 where e1: "fst (attempt_once net site_name sd url method 1) = Inl e1" "is_Exception e1"
    using fail [rule_format, of 1] by auto
  obtain e2 where e2: "fst (attempt_once net site_name sd url method 2) = Inl e2" "is_Exception e2"
    using fail [rule_format, of 2] by auto
  have s2: "attempts_loop net site_name sd url method [2] =
      (Inr (site_name, Uncertain, url), snd (attempt_once net site_name sd url method 2))"
    using attempts_loop_fail [OF e2, of "[]"] by (simp del: attempts_loop.simps)
  have s1: "attempts_loop net site_name sd url method [1, 2] =
      (Inr (site_name, Uncertain, url),
       snd (attempt_once net site_name sd url method 1) @ [Sleep 0.5] @
       snd (attempt_once net site_name sd url method 2))"
    using attempts_loop_fail [OF e1, of "[2]"] s2 by (simp del: attempts_loop.simps)
  have s0: "attempts_loop net site_name sd url method [0, 1, 2] =
      (Inr (site_name, Uncertain, url),
       snd (attempt_once net site_name sd url method 0) @ [Sleep 0.25] @
       snd (attempt_once net site_name sd url method 1) @ [Sleep 0.5] @
       snd (attempt_once net site_name sd url method 2))"
    using attempts_loop_fail [OF e0, of "[1, 2]"] s1 by (simp del: attempts_loop.simps)
  have cu: "check_username net site_name sd username =
      (Inr (site_name, Uncertain, url),
       snd (attempt_once net site_name sd url method 0) @ [Sleep 0.25] @
       snd (attempt_once net site_name sd url method 1) @ [Sleep 0.5] @
       snd (attempt_once net site_name sd url method 2))"
    using url m s0 by (simp add: check_username_def Let_def del: attempts_loop.simps)
  show ?thesis
    by (simp add: cu attempt_once_count attempt_once_sleeps sleeps_append)
qed

theorem check_username_all_attempts_fail_witness:
  "check_username dead_net ''ex'' plain_site ''alice'' =
     (Inr (''ex'', Uncertain, ''https://ex.com/alice''),
      [Request ''HEAD'' ''https://ex.com/alice'', Sleep 0.25,
       Request ''HEAD'' ''https://ex.com/alice'', Sleep 0.5,
       Request ''HEAD'' ''https://ex.com/alice''])"
proof -
  have u: "build_url plain_site ''alice'' = Inr ''https://ex.com/alice''"
    by (simp add: build_url_def plain_site_def)
  have m: "''HEAD'' = upper (case cfg_method plain_site of None \<Rightarrow> ''HEAD'' | Some m \<Rightarrow> m)"
    by (simp add: plain_site_def upper_HEAD)
  have f: "\<forall>a<3. \<exists>e. fst (attempt_once dead_net ''ex'' plain_site ''https://ex.com/alice'' ''HEAD'' a) = Inl e
              \<and> is_Exception e"
    by (simp add: attempt_once_def dead_net_def is_Exception_def)
  show ?thesis
    using check_username_all_attempts_fail [where site_name = "''ex''", OF u m f]
    by (simp add: attempt_once_def dead_net_def prod_eq_iff)
qed

lemma attempts_loop_result_now:
  assumes "fst (attempt_once net site_name sd url method a) = Inr v"
  shows "attempts_loop net site_name sd url method (a # rest)
           = (Inr v, snd (attempt_once net site_name sd url method a))"
  using assms by (cases "attempt_once net site_name sd url method a") simp

lemma attempts_loop_raise:
  assumes "fst (attempt_once net site_name sd url method a) = Inl e" and "\<not> is_Exception e"
  shows "attempts_loop net site_name sd url method (a # rest)
           = (Inl e, snd (attempt_once net site_name sd url method a))"
  using assms
  by (cases "attempt_once net site_name sd url method a") (auto simp: is_Exception_def)

lemma attempts_loop_prefix:
  "\<exists>t. snd (attempts_loop net site_name sd url method (a # rest))
         = snd (attempt_once net site_name sd url method a) @ t"
  by (cases "attempt_once net site_name sd url method a")
    (auto split: sum.splits prod.splits)

lemma less_3_cases: "k < (3::nat) \<Longrightarrow> k = 0 \<or> k = 1 \<or> k = 2"
  by arith

text \<open>
  C5, as stated, fails: for a profile whose method is GET, a first response with status
  429 is classified as it is, and no follow-up request is issued.
\<close>

theorem throttled_get_has_no_follow_up:
  "check_username (steady_net 429) ''ex'' (plain_site\<lparr>cfg_method := Some ''GET''\<rparr>) ''alice''
     = (Inr (''ex'', Uncertain, ''https://ex.com/alice''),
        [Request ''GET'' ''https://ex.com/alice''])"
  by (simp add: check_username_def build_url_def plain_site_def upper_GET attempt_once_def
        interpret_response_def looks_like_bad_redirect_def body_response_def steady_net_def)

text \<open>
  C5, amended. The method of the profile, HEAD when none is configured, is upper-cased
  and is the first request of every attempt. In every attempt: when the first request
  raises, the attempt ends with that exception after this one request; when the method
  is HEAD and the first response has a status among 403, 405, 429, 500, 502, 503, the
  attempt issues exactly one more request, a GET, and the outcome of the attempt is the
  one of the GET (its exception, or the classification of its response: the first
  response is not classified); in every other case, so for a first response with
  status 200 and for every first response to a method other than HEAD whatever its
  status, the first response is classified and no other request is issued. The probe is
  made of these attempts: when the attempts before attempt \<open>k\<close> have each ended in an
  \<open>Exception\<close>, its trace is their requests, each followed by its sleep, and then the
  requests of attempt \<open>k\<close>; a result of attempt \<open>k\<close> is the result of the probe and ends
  the trace, an exception that is not an \<open>Exception\<close> leaves the probe there, and an
  \<open>Exception\<close> in the last attempt makes the probe Uncertain.
\<close>

theorem check_username_method_fallback:
  assumes url: "build_url sd username = Inr url"
    and m: "method = upper (case cfg_method sd of None \<Rightarrow> ''HEAD'' | Some m \<Rightarrow> m)"
  shows "(cfg_method sd = None \<longrightarrow> method = ''HEAD'')
       \<and> (\<forall>a.
            (\<forall>e. net a method = Inl e \<longrightarrow>
               attempt_once net site_name sd url method a = (Inl e, [Request method url]))
          \<and> (\<forall>r. net a method = Inr r \<and> method = ''HEAD''
                  \<and> resp_status r \<in> {403, 405, 429, 500, 502, 503} \<longrightarrow>
               snd (attempt_once net site_name sd url method a)
                 = [Request ''HEAD'' url, Request ''GET'' url]
             \<and> (\<forall>e. net a ''GET'' = Inl e \<longrightarrow>
                    fst (attempt_once net site_name sd url method a) = Inl e)
             \<and> (\<forall>r'. net a ''GET'' = Inr r' \<longrightarrow>
                    fst (attempt_once net site_name sd url method a)
                      = interpret_response site_name sd url r'))
          \<and> (\<forall>r. net a method = Inr r
                  \<and> (method \<noteq> ''HEAD'' \<or> resp_status r \<notin> {403, 405, 429, 500, 502, 503}) \<longrightarrow>
               attempt_once net site_name sd url method a
                 = (interpret_response site_name sd url r, [Request method url])))
       \<and> (\<forall>k<3. (\<forall>j<k. \<exists>e. fst (attempt_once net site_name sd url method j) = Inl e
                          \<and> is_Exception e) \<longrightarrow>
            (\<exists>rest. snd (check_username net site_name sd username)
                      = backoff_trace net site_name sd url method k
                          @ snd (attempt_once net site_name sd url method k) @ rest)
          \<and> (\<forall>v. fst (attempt_once net site_name sd url method k) = Inr v \<longrightarrow>
               check_username net site_name sd username
                 = (Inr v, backoff_trace net site_name sd url method k
                             @ snd (attempt_once net site_name sd url method k)))
          \<and> (\<forall>e. fst (attempt_once net site_name sd url method k) = Inl e
                  \<and> \<not> is_Exception e \<longrightarrow>
               check_username net site_name sd username
                 = (Inl e, backoff_trace net site_name sd url method k
                             @ snd (attempt_once net site_name sd url method k)))
          \<and> (\<forall>e. fst (attempt_once net site_name sd url method k) = Inl e
                  \<and> is_Exception e \<and> k = 2 \<longrightarrow>
               check_username net site_name sd username
                 = (Inr (site_name, Uncertain, url),
                    backoff_trace net site_name sd url method k
                      @ snd (attempt_once net site_name sd url method k))))"
proof -
  let ?A = "attempt_once net site_name sd url method"
  let ?L = "attempts_loop net site_name sd url method"
  let ?B = "backoff_trace net site_name sd url method"
  let ?c = "check_username net site_name sd username"
  have cu: "?c = ?L [0, 1, 2]"
    using url m by (simp add: check_username_def Let_def del: attempts_loop.simps)
  have 1: "cfg_method sd = None \<longrightarrow> method = ''HEAD''"
    using m by (simp add: upper_HEAD)
  have 2: "(\<forall>e. net a method = Inl e \<longrightarrow> ?A a = (Inl e, [Request method url]))
          \<and> (\<forall>r. net a method = Inr r \<and> method = ''HEAD''
                  \<and> resp_status r \<in> {403, 405, 429, 500, 502, 503} \<longrightarrow>
               snd (?A a) = [Request ''HEAD'' url, Request ''GET'' url]
             \<and> (\<forall>e. net a ''GET'' = Inl e \<longrightarrow> fst (?A a) = Inl e)
             \<and> (\<forall>r'. net a ''GET'' = Inr r' \<longrightarrow>
                    fst (?A a) = interpret_response site_name sd url r'))
          \<and> (\<forall>r. net a method = Inr r
                  \<and> (method \<noteq> ''HEAD'' \<or> resp_status r \<notin> {403, 405, 429, 500, 502, 503}) \<longrightarrow>
               ?A a = (interpret_response site_name sd url r, [Request method url]))" for a
    by (auto simp: attempt_once_def split: sum.splits)
  have step: "?L (a # rest) = (fst (?L rest), snd (?A a) @ [Sleep (0.25 * 2 ^ a)] @ snd (?L rest))"
    if "\<exists>e. fst (?A a) = Inl e \<and> is_Exception e" "a \<noteq> 2" for a rest
    using that attempts_loop_fail [of net site_name sd url "method" a _ rest] by auto
  have last: "?L (a # rest) = (Inr (site_name, Uncertain, url), snd (?A a))"
    if "fst (?A a) = Inl e" "is_Exception e" "a = 2" for a rest e
    using that attempts_loop_fail [of net site_name sd url "method" a e rest] by simp
  have tail: "(\<exists>t. snd (?L (a # rest)) = snd (?A a) @ t)
          \<and> (\<forall>v. fst (?A a) = Inr v \<longrightarrow> ?L (a # rest) = (Inr v, snd (?A a)))
          \<and> (\<forall>e. fst (?A a) = Inl e \<and> \<not> is_Exception e \<longrightarrow> ?L (a # rest) = (Inl e, snd (?A a)))
          \<and> (\<forall>e. fst (?A a) = Inl e \<and> is_Exception e \<and> a = 2 \<longrightarrow>
                ?L (a # rest) = (Inr (site_name, Uncertain, url), snd (?A a)))" for a rest
    using attempts_loop_prefix [of net site_name sd url "method" a rest]
      attempts_loop_result_now [of net site_name sd url "method" a _ rest]
      attempts_loop_raise [of net site_name sd url "method" a _ rest]
      last [of a _ rest]
    by blast
  have b0: "?B 0 = []" by simp
  have b1: "?B 1 = snd (?A 0) @ [Sleep 0.25]" by simp
  have b2: "?B 2 = snd (?A 0) @ [Sleep 0.25] @ snd (?A 1) @ [Sleep 0.5]"
    by (simp add: numeral_2_eq_2)
  have k0: "?c = ?L (0 # [1, 2])" using cu by simp
  have k1: "?c = (fst (?L (1 # [2])), ?B 1 @ snd (?L (1 # [2])))"
    if "\<forall>j<1. \<exists>e. fst (?A j) = Inl e \<and> is_Exception e"
    unfolding cu b1 using step [of 0 "[1, 2]"] that by (simp del: attempts_loop.simps)
  have k2: "?c = (fst (?L (2 # [])), ?B 2 @ snd (?L (2 # [])))"
    if "\<forall>j<2. \<exists>e. fst (?A j) = Inl e \<and> is_Exception e"
  proof -
    have "\<exists>e. fst (?A 0) = Inl e \<and> is_Exception e" "\<exists>e. fst (?A 1) = Inl e \<and> is_Exception e"
      using that by simp_all
    then show ?thesis
      unfolding cu b2 using step [of 0 "[1, 2]"] step [of 1 "[2]"]
      by (simp del: attempts_loop.simps)
  qed
  have gen: "(\<exists>rest. snd ?c = ?B k @ snd (?A k) @ rest)
          \<and> (\<forall>v. fst (?A k) = Inr v \<longrightarrow> ?c = (Inr v, ?B k @ snd (?A k)))
          \<and> (\<forall>e. fst (?A k) = Inl e \<and> \<not> is_Exception e \<longrightarrow> ?c = (Inl e, ?B k @ snd (?A k)))
          \<and> (\<forall>e. fst (?A k) = Inl e \<and> is_Exception e \<and> k = 2 \<longrightarrow>
                ?c = (Inr (site_name, Uncertain, url), ?B k @ snd (?A k)))"
    if c: "?c = (fst (?L (k # rest)), ?B k @ snd (?L (k # rest)))" for k rest
  proof (intro conjI allI impI)
    obtain t where "snd (?L (k # rest)) = snd (?A k) @ t"
      using tail [of k rest] by blast
    then show "\<exists>rest. snd ?c = ?B k @ snd (?A k) @ rest"
      using c by simp
  next
    fix v assume "fst (?A k) = Inr v"
    then have "?L (k # rest) = (Inr v, snd (?A k))"
      using tail [of k rest] by blast
    then show "?c = (Inr v, ?B k @ snd (?A k))"
      using c by simp
  next
    fix e assume "fst (?A k) = Inl e \<and> \<not> is_Exception e"
    then have "?L (k # rest) = (Inl e, snd (?A k))"
      using tail [of k rest] by blast
    then show "?c = (Inl e, ?B k @ snd (?A k))"
      using c by simp
  next
    fix e assume "fst (?A k) = Inl e \<and> is_Exception e \<and> k = 2"
    then have "?L (k # rest) = (Inr (site_name, Uncertain, url), snd (?A k))"
      using tail [of k rest] by blast
    then show "?c = (Inr (site_name, Uncertain, url), ?B k @ snd (?A k))"
      using c by simp
  qed
  have 3: "(\<exists>rest. snd ?c = ?B k @ snd (?A k) @ rest)
          \<and> (\<forall>v. fst (?A k) = Inr v \<longrightarrow> ?c = (Inr v, ?B k @ snd (?A k)))
          \<and> (\<forall>e. fst (?A k) = Inl e \<and> \<not> is_Exception e \<longrightarrow> ?c = (Inl e, ?B k @ snd (?A k)))
          \<and> (\<forall>e. fst (?A k) = Inl e \<and> is_Exception e \<and> k = 2 \<longrightarrow>
                ?c = (Inr (site_name, Uncertain, url), ?B k @ snd (?A k)))"
    if k: "k < 3" and f: "\<forall>j<k. \<exists>e. fst (?A j) = Inl e \<and> is_Exception e" for k
  proof -
    consider "k = 0" | "k = 1" | "k = 2" using less_3_cases [OF k] by blast
    then show ?thesis
    proof cases
      case 1
      have "?c = (fst (?L (0 # [1, 2])), ?B 0 @ snd (?L (0 # [1, 2])))"
        using k0 by (simp del: attempts_loop.simps)
      then show ?thesis unfolding 1 by (rule gen)
    next
      case 2
      have "?c = (fst (?L (1 # [2])), ?B 1 @ snd (?L (1 # [2])))"
        using k1 f 2 by blast
      then show ?thesis unfolding 2 by (rule gen)
    next
      case 3
      have "?c = (fst (?L (2 # [])), ?B 2 @ snd (?L (2 # [])))"
        using k2 f 3 by blast
      then show ?thesis unfolding 3 by (rule gen)
    qed
  qed
  show ?thesis
    using 1 2 3 by blast
qed
theorem check_username_method_fallback_witness:
  "check_username throttled_net ''ex'' plain_site ''alice''
     = (Inr (''ex'', NotFound, ''https://ex.com/alice''),
        [Request ''HEAD'' ''https://ex.com/alice'', Request ''GET'' ''https://ex.com/alice''])
   \<and> check_username flaky_net ''ex'' plain_site ''alice''
     = (Inr (''ex'', NotFound, ''https://ex.com/alice''),
        [Request ''HEAD'' ''https://ex.com/alice'', Sleep 0.25,
         Request ''HEAD'' ''https://ex.com/alice'', Request ''GET'' ''https://ex.com/alice''])
   \<and> check_username get_refused_net ''ex'' plain_site ''alice''
     = (Inr (''ex'', Uncertain, ''https://ex.com/alice''),
        [Request ''HEAD'' ''https://ex.com/alice'', Request ''GET'' ''https://ex.com/alice'',
         Sleep 0.25,
         Request ''HEAD'' ''https://ex.com/alice'', Request ''GET'' ''https://ex.com/alice'',
         Sleep 0.5,
         Request ''HEAD'' ''https://ex.com/alice'', Request ''GET'' ''https://ex.com/alice''])
   \<and> check_username (steady_net 200) ''ex'' plain_site ''alice''
     = (Inr (''ex'', Uncertain, ''https://ex.com/alice''),
        [Request ''HEAD'' ''https://ex.com/alice''])
   \<and> check_username (steady_net 503) ''ex'' (plain_site\<lparr>cfg_method := Some ''get''\<rparr>) ''alice''
     = (Inr (''ex'', Uncertain, ''https://ex.com/alice''),
        [Request ''GET'' ''https://ex.com/alice''])"
proof -
  let ?u = "''https://ex.com/alice''"
  let ?g = "plain_site\<lparr>cfg_method := Some ''get''\<rparr>"
  have u: "build_url plain_site ''alice'' = Inr ?u" "build_url ?g ''alice'' = Inr ?u"
    by (simp_all add: build_url_def plain_site_def)
  have m: "''HEAD'' = upper (case cfg_method plain_site of None \<Rightarrow> ''HEAD'' | Some m \<Rightarrow> m)"
    by (simp add: plain_site_def upper_HEAD)
  have m': "''GET'' = upper (case cfg_method ?g of None \<Rightarrow> ''HEAD'' | Some m \<Rightarrow> m)"
    by (simp add: upper_get)
  have cl: "interpret_response ''ex'' plain_site ?u (body_response 404 [])
              = Inr (''ex'', NotFound, ?u)"
           "interpret_response ''ex'' plain_site ?u (body_response 200 [])
              = Inr (''ex'', Uncertain, ?u)"
           "interpret_response ''ex'' ?g ?u (body_response 503 [])
              = Inr (''ex'', Uncertain, ?u)"
    by (simp_all add: interpret_response_def looks_like_bad_redirect_def body_response_def
          plain_site_def)
  have st: "resp_status (body_response c []) = c" for c
    by (simp add: body_response_def)
  note ex = is_Exception_def
  have t: "attempt_once throttled_net ''ex'' plain_site ?u ''HEAD'' a
             = (Inr (''ex'', NotFound, ?u), [Request ''HEAD'' ?u, Request ''GET'' ?u])" for a
    by (simp add: attempt_once_def throttled_net_def st cl)
  have f: "attempt_once flaky_net ''ex'' plain_site ?u ''HEAD'' 0
             = (Inl ClientError, [Request ''HEAD'' ?u])"
          "attempt_once flaky_net ''ex'' plain_site ?u ''HEAD'' (Suc 0)
             = (Inr (''ex'', NotFound, ?u), [Request ''HEAD'' ?u, Request ''GET'' ?u])"
    by (simp_all add: attempt_once_def flaky_net_def throttled_net_def st cl)
  have r: "attempt_once get_refused_net ''ex'' plain_site ?u ''HEAD'' a
             = (Inl TimeoutError, [Request ''HEAD'' ?u, Request ''GET'' ?u])" for a
    by (simp add: attempt_once_def get_refused_net_def st)
  have s: "attempt_once (steady_net 200) ''ex'' plain_site ?u ''HEAD'' a
             = (Inr (''ex'', Uncertain, ?u), [Request ''HEAD'' ?u])" for a
    by (simp add: attempt_once_def steady_net_def st cl)
  have g: "attempt_once (steady_net 503) ''ex'' ?g ?u ''GET'' a
             = (Inr (''ex'', Uncertain, ?u), [Request ''GET'' ?u])" for a
    by (simp add: attempt_once_def steady_net_def st cl)
  note T = check_username_method_fallback [THEN conjunct2, THEN conjunct2, rule_format]
  have 1: "check_username throttled_net ''ex'' plain_site ''alice''
     = (Inr (''ex'', NotFound, ?u), [Request ''HEAD'' ?u, Request ''GET'' ?u])"
    using T [OF u(1) m, where net = throttled_net and site_name = "''ex''" and k = 0,
        THEN conjunct2, THEN conjunct1, rule_format, of "(''ex'', NotFound, ?u)"]
    by (simp add: t)
  have 2: "check_username flaky_net ''ex'' plain_site ''alice''
     = (Inr (''ex'', NotFound, ?u),
        [Request ''HEAD'' ?u, Sleep 0.25, Request ''HEAD'' ?u, Request ''GET'' ?u])"
    using T [OF u(1) m, where net = flaky_net and site_name = "''ex''" and k = 1,
        THEN conjunct2, THEN conjunct1, rule_format, of "(''ex'', NotFound, ?u)"]
    by (simp add: f ex)
  have 3: "check_username get_refused_net ''ex'' plain_site ''alice''
     = (Inr (''ex'', Uncertain, ?u),
        [Request ''HEAD'' ?u, Request ''GET'' ?u, Sleep 0.25,
         Request ''HEAD'' ?u, Request ''GET'' ?u, Sleep 0.5,
         Request ''HEAD'' ?u, Request ''GET'' ?u])"
    using T [OF u(1) m, where net = get_refused_net and site_name = "''ex''" and k = 2,
        THEN conjunct2, THEN conjunct2, THEN conjunct2, rule_format, of TimeoutError]
    by (simp add: r ex numeral_2_eq_2)
  have 4: "check_username (steady_net 200) ''ex'' plain_site ''alice''
     = (Inr (''ex'', Uncertain, ?u), [Request ''HEAD'' ?u])"
    using T [OF u(1) m, where net = "steady_net 200" and site_name = "''ex''" and k = 0,
        THEN conjunct2, THEN conjunct1, rule_format, of "(''ex'', Uncertain, ?u)"]
    by (simp add: s)
  have 5: "check_username (steady_net 503) ''ex'' ?g ''alice''
     = (Inr (''ex'', Uncertain, ?u), [Request ''GET'' ?u])"
    using T [OF u(2) m', where net = "steady_net 503" and site_name = "''ex''" and k = 0,
        THEN conjunct2, THEN conjunct1, rule_format, of "(''ex'', Uncertain, ?u)"]
    by (simp add: g)
  show ?thesis using 1 2 3 4 5 by simp
qed


section \<open>Properties of the enrichment step\<close>

lemma has_tag_simps:
  "has_tag [] = False"
  "has_tag (c # cs) = (match_tag (c # cs) \<noteq> None \<or> has_tag cs)"
  by (auto simp: has_tag_def match_tag_def split: option.splits)

lemma until_gt_simps:
  "until_gt [] = None"
  "until_gt (c # s) = (if c = CHR ''>'' then Some s else until_gt s)"
  by (simp_all add: until_gt_def)

lemma until_gt_iff: "until_gt s \<noteq> None \<longleftrightarrow> CHR ''>'' \<in> set s"
  by (induction s) (auto simp: until_gt_simps)

lemma match_tag_iff:
  "match_tag s \<noteq> None \<longleftrightarrow>
     (\<exists>d ds. s = CHR ''<'' # d # ds \<and> d \<noteq> CHR ''>'' \<and> CHR ''>'' \<in> set ds)"
  using until_gt_iff by (auto simp: match_tag_def split: list.splits)

lemma match_tagI:
  "d \<noteq> CHR ''>'' \<Longrightarrow> CHR ''>'' \<in> set ds \<Longrightarrow> match_tag (CHR ''<'' # d # ds) \<noteq> None"
  unfolding match_tag_iff by blast

lemma set_sub_tags: "set (sub_tags s) \<subseteq> set s"
proof (induction s rule: sub_tags.induct)
  case 1
  then show ?case by simp
next
  case (2 c cs)
  show ?case
  proof (cases "match_tag (c # cs)")
    case None
    with 2 show ?thesis by auto
  next
    case (Some rest)
    then obtain d ds where s: "c # cs = CHR ''<'' # d # ds" "until_gt ds = Some rest"
      by (auto simp: match_tag_def split: list.splits if_splits)
    have "set rest \<subseteq> set ds"
      using s(2) set_dropWhileD [of _ "\<lambda>c. c \<noteq> CHR ''>''" ds]
      by (auto simp: until_gt_def split: list.splits)
    moreover have "set (sub_tags rest) \<subseteq> set rest"
      using 2 Some by simp
    ultimately show ?thesis using Some s by auto
  qed
qed

lemma no_tag_sub_tags: "\<not> has_tag (sub_tags s)"
proof (induction s rule: sub_tags.induct)
  case 1
  then show ?case by (simp add: has_tag_simps)
next
  case (2 c cs)
  show ?case
  proof (cases "match_tag (c # cs)")
    case (Some rest)
    with 2 show ?thesis by simp
  next
    case None
    have "match_tag (c # sub_tags cs) = None"
    proof (rule ccontr)
      assume "match_tag (c # sub_tags cs) \<noteq> None"
      then obtain d ds where t: "c = CHR ''<''" "sub_tags cs = d # ds" "d \<noteq> CHR ''>''"
          "CHR ''>'' \<in> set ds"
        unfolding match_tag_iff by auto
      have gt: "CHR ''>'' \<in> set cs"
        using t(2,4) set_sub_tags [of cs] by auto
      obtain d0 ds0 where cs: "cs = d0 # ds0"
        using gt by (cases cs) auto
      have "d0 \<noteq> CHR ''>''"
      proof
        assume "d0 = CHR ''>''"
        then have "sub_tags cs = CHR ''>'' # sub_tags ds0"
          by (simp add: cs match_tag_def split: list.splits)
        with t(2,3) show False by simp
      qed
      with gt cs have "CHR ''>'' \<in> set ds0" by auto
      with t(1) cs \<open>d0 \<noteq> CHR ''>''\<close> have "match_tag (c # cs) \<noteq> None"
        using match_tagI [of d0 ds0] by simp
      with None show False by simp
    qed
    moreover have "\<not> has_tag (sub_tags cs)"
      using 2 None by simp
    ultimately show ?thesis using None by (simp add: has_tag_simps)
  qed
qed

lemma has_tag_suffix: "has_tag ys \<Longrightarrow> has_tag (xs @ ys)"
  by (induction xs) (auto simp: has_tag_simps)

lemma has_tag_prefix: "has_tag xs \<Longrightarrow> has_tag (xs @ ys)"
proof (induction xs)
  case Nil
  then show ?case by (simp add: has_tag_simps)
next
  case (Cons c cs)
  show ?case
  proof (cases "match_tag (c # cs) \<noteq> None")
    case True
    then have "match_tag (c # cs @ ys) \<noteq> None"
      unfolding match_tag_iff by auto
    then show ?thesis by (simp add: has_tag_simps)
  next
    case False
    with Cons show ?thesis by (auto simp: has_tag_simps)
  qed
qed

lemma strip_decomp:
  "dropWhile isspace s = strip s @ rev (takeWhile isspace (rev (dropWhile isspace s)))"
proof -
  let ?r = "rev (dropWhile isspace s)"
  have "strip s @ rev (takeWhile isspace ?r) = rev (takeWhile isspace ?r @ dropWhile isspace ?r)"
    unfolding strip_def rev_append ..
  also have "\<dots> = dropWhile isspace s"
    unfolding takeWhile_dropWhile_id rev_rev_ident ..
  finally show ?thesis by (rule sym)
qed

lemma no_tag_strip:
  assumes "\<not> has_tag s"
  shows "\<not> has_tag (strip s)"
proof
  assume "has_tag (strip s)"
  then have "has_tag (strip s @ rev (takeWhile isspace (rev (dropWhile isspace s))))"
    by (rule has_tag_prefix)
  then have "has_tag (dropWhile isspace s)"
    by (simp only: strip_decomp [symmetric])
  then have "has_tag (takeWhile isspace s @ dropWhile isspace s)"
    by (rule has_tag_suffix)
  with assms show False by simp
qed

lemma isspace_not_gt: "isspace c \<Longrightarrow> c \<noteq> CHR ''>'' \<and> c \<noteq> CHR ''<''"
  by (auto simp: isspace_def)

lemma isspace_blank: "isspace CHR '' ''"
  by (simp add: isspace_def)

lemma gt_sub_spaces: "CHR ''>'' \<in> set (sub_spaces s) \<Longrightarrow> CHR ''>'' \<in> set s"
proof (induction s rule: sub_spaces.induct)
  case 1
  then show ?case by simp
next
  case (2 c cs)
  then show ?case
    by (auto split: if_splits dest: set_dropWhileD)
qed

lemma has_tag_sub_spaces: "has_tag (sub_spaces s) \<Longrightarrow> has_tag s"
proof (induction s rule: sub_spaces.induct)
  case 1
  then show ?case by simp
next
  case (2 c cs)
  show ?case
  proof (cases "isspace c")
    case True
    then have "has_tag (sub_spaces (dropWhile isspace cs))"
      using 2(3) by (simp add: has_tag_simps match_tag_def split: list.splits)
    then have "has_tag (dropWhile isspace cs)" using 2(1) [OF True] by simp
    then have "has_tag (takeWhile isspace cs @ dropWhile isspace cs)"
      by (rule has_tag_suffix)
    then show ?thesis by (simp add: has_tag_simps)
  next
    case False
    then have hs: "match_tag (c # sub_spaces cs) \<noteq> None \<or> has_tag (sub_spaces cs)"
      using 2(3) by (simp add: has_tag_simps)
    show ?thesis
    proof (cases "has_tag (sub_spaces cs)")
      case True
      then show ?thesis using 2(2) [OF False] by (simp add: has_tag_simps)
    next
      case nt: False
      with hs have "match_tag (c # sub_spaces cs) \<noteq> None" by simp
      then obtain d ds where t: "c = CHR ''<''" "sub_spaces cs = d # ds" "d \<noteq> CHR ''>''"
          "CHR ''>'' \<in> set ds"
        unfolding match_tag_iff by auto
      obtain d0 ds0 where cs: "cs = d0 # ds0"
        using t(2) by (cases cs) auto
      have "d0 \<noteq> CHR ''>'' \<and> CHR ''>'' \<in> set ds0"
      proof (cases "isspace d0")
        case True
        then have "ds = sub_spaces (dropWhile isspace ds0)"
          using t(2) cs by simp
        then have "CHR ''>'' \<in> set (dropWhile isspace ds0)"
          using t(4) gt_sub_spaces by simp
        then show ?thesis using True isspace_not_gt by (auto dest: set_dropWhileD)
      next
        case False
        then have "d = d0" "ds = sub_spaces ds0"
          using t(2) cs by simp_all
        then show ?thesis using t(3,4) gt_sub_spaces by simp
      qed
      then have "match_tag (c # cs) \<noteq> None"
        using t(1) cs match_tagI [of d0 ds0] by simp
      then show ?thesis by (simp add: has_tag_simps)
    qed
  qed
qed

lemma ws_collapsed_nonspace: "\<not> isspace c \<Longrightarrow> ws_collapsed (c # t) = ws_collapsed t"
  by (cases t) simp_all

lemma sub_spaces_dropWhile_head:
  "sub_spaces (dropWhile isspace cs) = d # t \<Longrightarrow> \<not> isspace d"
proof -
  assume a: "sub_spaces (dropWhile isspace cs) = d # t"
  then obtain e es where e: "dropWhile isspace cs = e # es" by (cases "dropWhile isspace cs") auto
  then have "\<not> isspace e"
    using hd_dropWhile [of isspace cs] by simp
  with a e show ?thesis by simp
qed

lemma ws_collapsed_sub_spaces: "ws_collapsed (sub_spaces s)"
proof (induction s rule: sub_spaces.induct)
  case 1
  then show ?case by simp
next
  case (2 c cs)
  show ?case
  proof (cases "isspace c")
    case True
    show ?thesis
    proof (cases "sub_spaces (dropWhile isspace cs)")
      case Nil
      with True show ?thesis by (simp add: isspace_blank)
    next
      case (Cons d t)
      with True 2(1) sub_spaces_dropWhile_head [OF Cons] show ?thesis
        by (simp add: isspace_blank)
    qed
  next
    case False
    with 2(2) show ?thesis by (simp add: ws_collapsed_nonspace)
  qed
qed

text \<open>
  What the enrichment step returns when the page is fetched with status 200: the
  extracted text cleaned and then cut, that is the first 80 characters followed by
  \<open>...\<close> when the cleaned text has more than 80 characters, the cleaned text itself
  otherwise. In the cleaned text every run of whitespace is a single blank. Text taken
  from the description block has its markup removed (the cleaned text has no match of
  \<open><[^>]+>\<close>); text taken from the meta description is stripped of surrounding
  whitespace only.
\<close>

lemma fetch_x_bio_clean:
  assumes "get (''https://x.com/'' @ username) = Inr p"
    and "page_status p = 200"
    and "page_text p = Inr html"
  shows "(re_search match_description html = Some g \<longrightarrow>
            fst (fetch_x_bio get username) =
              Inr (Some (if length (sub_spaces (strip (sub_tags g))) > 80
                         then take 80 (sub_spaces (strip (sub_tags g))) @ ''...''
                         else sub_spaces (strip (sub_tags g))))
            \<and> \<not> has_tag (sub_spaces (strip (sub_tags g)))
            \<and> ws_collapsed (sub_spaces (strip (sub_tags g))))
       \<and> (re_search match_description html = None \<and> re_search match_meta html = Some g \<longrightarrow>
            fst (fetch_x_bio get username) =
              Inr (Some (if length (sub_spaces (strip g)) > 80
                         then take 80 (sub_spaces (strip g)) @ ''...''
                         else sub_spaces (strip g)))
            \<and> ws_collapsed (sub_spaces (strip g)))"
proof -
  let ?d = "sub_spaces (strip (sub_tags g))"
  let ?m = "sub_spaces (strip g)"
  have d: "fst (fetch_x_bio get username) = Inr (Some (ellipsis80 ?d))"
    if "re_search match_description html = Some g"
    using assms that by (simp add: fetch_x_bio_def fetch_x_bio_try_def Let_def)
  have m: "fst (fetch_x_bio get username) = Inr (Some (ellipsis80 ?m))"
    if "re_search match_description html = None" "re_search match_meta html = Some g"
    using assms that by (simp add: fetch_x_bio_def fetch_x_bio_try_def Let_def)
  have nt: "\<not> has_tag ?d"
    using no_tag_strip [OF no_tag_sub_tags, of g] has_tag_sub_spaces [of "strip (sub_tags g)"]
    by blast
  show ?thesis
    using d m nt ws_collapsed_sub_spaces [of "strip (sub_tags g)"]
      ws_collapsed_sub_spaces [of "strip g"]
    unfolding ellipsis80_def by blast
qed


lemma search_description_page:
  "re_search match_description description_page = Some ''<span>Hi   <b>there</b></span>  ''"
  by code_simp

lemma clean_description_page:
  "sub_spaces (strip (sub_tags ''<span>Hi   <b>there</b></span>  '')) = ''Hi there''"
  by code_simp

lemma search_long_page:
  "re_search match_description long_page = Some (replicate 85 CHR ''a'')"
  by code_simp

lemma clean_long_page:
  "sub_spaces (strip (sub_tags (replicate 85 CHR ''a''))) = replicate 85 CHR ''a''"
  by code_simp

lemma search_meta_page:
  "re_search match_description meta_page = None"
  "re_search match_meta meta_page = Some ''Hello   <b>w</b>''"
  by code_simp+

lemma clean_meta_page: "sub_spaces (strip ''Hello   <b>w</b>'') = ''Hello <b>w</b>''"
  by code_simp

lemma has_tag_meta_bio: "has_tag ''Hello <b>w</b>''"
  by code_simp

text \<open>
  C9. Every biography text that the enrichment step extracts has its markup stripped and
  its whitespace collapsed, and is cut to 80 characters with an ellipsis marker when
  longer. On the page whose only biography source is the tag
  \<open><meta name="description" content="Hello   <b>w</b>">\<close> the code returns the biography
  \<open>Hello <b>w</b>\<close>: the whitespace is collapsed and the markup is still there. On the
  page whose description block holds \<open><span>Hi   <b>there</b></span>\<close> the same function
  removes the markup and returns \<open>Hi there\<close>: only the description branch applies the
  substitution of \<open><[^>]+>\<close>.
\<close>

theorem meta_bio_keeps_markup:
  "fst (fetch_x_bio (page_get meta_page) ''alice'') = Inr (Some ''Hello <b>w</b>'')
   \<and> has_tag ''Hello <b>w</b>''
   \<and> fst (fetch_x_bio (page_get description_page) ''alice'') = Inr (Some ''Hi there'')
   \<and> \<not> has_tag ''Hi there''"
proof -
  have "fst (fetch_x_bio (page_get meta_page) ''alice'') = Inr (Some ''Hello <b>w</b>'')"
    by (simp add: fetch_x_bio_def fetch_x_bio_try_def page_get_def search_meta_page
          clean_meta_page ellipsis80_def)
  moreover have "fst (fetch_x_bio (page_get description_page) ''alice'')
                   = Inr (Some ''Hi there'')"
    by (simp add: fetch_x_bio_def fetch_x_bio_try_def page_get_def search_description_page
          clean_description_page ellipsis80_def del: sub_tags.simps)
  moreover have "\<not> has_tag ''Hi there''"
    by code_simp
  ultimately show ?thesis
    using has_tag_meta_bio by simp
qed

lemma fetch_x_bio_clean_examples:
  "fst (fetch_x_bio (page_get description_page) ''alice'') = Inr (Some ''Hi there'')
   \<and> \<not> has_tag ''Hi there'' \<and> ws_collapsed ''Hi there''
   \<and> fst (fetch_x_bio (page_get long_page) ''alice'')
       = Inr (Some (replicate 80 CHR ''a'' @ ''...''))
   \<and> fst (fetch_x_bio (page_get meta_page) ''alice'') = Inr (Some ''Hello <b>w</b>'')
   \<and> ws_collapsed ''Hello <b>w</b>''"
proof -
  have g: "page_get t (''https://x.com/'' @ ''alice'')
             = Inr \<lparr>page_status = 200, page_text = Inr t\<rparr>" for t
    by (simp add: page_get_def)
  have ps: "page_status \<lparr>page_status = 200, page_text = Inr t\<rparr> = 200" for t :: string
    by simp
  have pt: "page_text \<lparr>page_status = 200, page_text = Inr t\<rparr> = Inr t" for t :: string
    by simp
  note d = fetch_x_bio_clean [where get = "page_get description_page"
      and username = "''alice''"
      and p = "\<lparr>page_status = 200, page_text = Inr description_page\<rparr>"
      and html = description_page and g = "''<span>Hi   <b>there</b></span>  ''",
      OF g ps pt, unfolded clean_description_page]
  have 1: "fst (fetch_x_bio (page_get description_page) ''alice'') = Inr (Some ''Hi there'')
           \<and> \<not> has_tag ''Hi there'' \<and> ws_collapsed ''Hi there''"
    using d search_description_page by (simp del: ws_collapsed.simps)
  note l = fetch_x_bio_clean [where get = "page_get long_page" and username = "''alice''"
      and p = "\<lparr>page_status = 200, page_text = Inr long_page\<rparr>"
      and html = long_page and g = "replicate 85 CHR ''a''",
      OF g ps pt, unfolded clean_long_page]
  have "fst (fetch_x_bio (page_get long_page) ''alice'')
          = Inr (Some (if 80 < length (replicate 85 CHR ''a'')
                       then take 80 (replicate 85 CHR ''a'') @ ''...''
                       else replicate 85 CHR ''a''))"
    using l search_long_page by blast
  then have 2: "fst (fetch_x_bio (page_get long_page) ''alice'')
             = Inr (Some (replicate 80 CHR ''a'' @ ''...''))"
    by simp
  note m = fetch_x_bio_clean [where get = "page_get meta_page" and username = "''alice''"
      and p = "\<lparr>page_status = 200, page_text = Inr meta_page\<rparr>"
      and html = meta_page and g = "''Hello   <b>w</b>''",
      OF g ps pt, unfolded clean_meta_page]
  have 3: "fst (fetch_x_bio (page_get meta_page) ''alice'') = Inr (Some ''Hello <b>w</b>'')
           \<and> ws_collapsed ''Hello <b>w</b>''"
    using m search_meta_page by (simp del: ws_collapsed.simps)
  show ?thesis using 1 2 3 by blast
qed

section \<open>Properties of the scan orchestrator\<close>

lemma gets_append: "gets (xs @ ys) = gets xs @ gets ys"
  by (induction xs rule: gets.induct) simp_all

lemma permute_step:
  "ys \<noteq> [] \<Longrightarrow>
   permute (p # picks) ys =
     ys ! (p mod length ys) #
     permute picks (take (p mod length ys) ys @ drop (Suc (p mod length ys)) ys)"
  by (cases ys) (simp_all only: permute.simps Let_def, simp)

lemma pick_split:
  assumes "ys \<noteq> []"
  shows "ys = take (p mod length ys) ys @ ys ! (p mod length ys) # drop (Suc (p mod length ys)) ys"
  using assms by (intro id_take_nth_drop) simp

lemma pick_rest_length:
  assumes "ys \<noteq> []"
  shows "Suc (length (take (p mod length ys) ys @ drop (Suc (p mod length ys)) ys)) = length ys"
proof -
  have "length ys = length (take (p mod length ys) ys @ ys ! (p mod length ys) # drop (Suc (p mod length ys)) ys)"
    using pick_split [OF assms, of p] by simp
  then show ?thesis by simp
qed

lemma permute_props:
  "length (permute picks xs) = length xs
   \<and> set (permute picks xs) = set xs
   \<and> map f (permute picks xs) = permute picks (map f xs)
   \<and> (distinct xs \<longrightarrow> distinct (permute picks xs))"
proof (induction "length xs" arbitrary: xs picks)
  case 0
  then show ?case by simp
next
  case (Suc n)
  then have ne: "xs \<noteq> []" by auto
  show ?case
  proof (cases picks)
    case Nil
    with ne show ?thesis by (cases xs) simp_all
  next
    case (Cons p ps)
    let ?i = "p mod length xs"
    let ?rest = "take ?i xs @ drop (Suc ?i) xs"
    have len: "n = length ?rest"
      using pick_rest_length [OF ne, of p] Suc(2) by simp
    note IH = Suc(1) [OF len, of ps]
    have sp: "xs = take ?i xs @ xs ! ?i # drop (Suc ?i) xs"
      by (rule pick_split [OF ne])
    have i: "?i < length xs" using ne by simp
    have s1: "length (permute picks xs) = length xs"
      using IH pick_rest_length [OF ne, of p] by (simp add: Cons permute_step [OF ne])
    have "set xs = insert (xs ! ?i) (set ?rest)"
      using arg_cong [OF sp, of set] by simp
    then have s2: "set (permute picks xs) = set xs"
      using IH by (simp add: Cons permute_step [OF ne])
    have "map f xs \<noteq> []" using ne by simp
    then have "permute picks (map f xs) =
        map f xs ! ?i # permute ps (take ?i (map f xs) @ drop (Suc ?i) (map f xs))"
      using permute_step [of "map f xs" p ps] by (simp add: Cons)
    also have "\<dots> = f (xs ! ?i) # permute ps (map f ?rest)"
      using i by (simp add: take_map drop_map)
    finally have s3: "map f (permute picks xs) = permute picks (map f xs)"
      using IH by (simp add: Cons permute_step [OF ne])
    have s4: "distinct (permute picks xs)" if "distinct xs"
    proof -
      have "distinct (take ?i xs @ xs ! ?i # drop (Suc ?i) xs)"
        using that sp by simp
      then have "distinct ?rest" "xs ! ?i \<notin> set ?rest" by auto
      then show ?thesis using IH by (simp add: Cons permute_step [OF ne])
    qed
    show ?thesis using s1 s2 s3 s4 by blast
  qed
qed

lemmas permute_length = permute_props [THEN conjunct1]
lemmas permute_set = permute_props [THEN conjunct2, THEN conjunct1]
lemmas permute_map = permute_props [THEN conjunct2, THEN conjunct2, THEN conjunct1]

lemma permute_distinct: "distinct xs \<Longrightarrow> distinct (permute picks xs)"
  using permute_props [of picks xs id] by blast


lemma attempts_loop_quiet:
  "gets (snd (attempts_loop net site_name sd url meth as)) = []
   \<and> count_list (snd (attempts_loop net site_name sd url meth as)) Advance = 0"
proof (induction as)
  case Nil
  then show ?case by simp
next
  case (Cons a as)
  obtain r evs where ao: "attempt_once net site_name sd url meth a = (r, evs)"
    by (cases "attempt_once net site_name sd url meth a")
  have q: "gets evs = []" "count_list evs Advance = 0"
    using attempt_once_events [of net site_name sd url meth a] ao by auto
  obtain r' evs' where al: "attempts_loop net site_name sd url meth as = (r', evs')"
    by (cases "attempts_loop net site_name sd url meth as")
  show ?case
    using Cons ao al q by (auto simp: gets_append split: sum.splits)
qed

lemma check_username_quiet:
  "gets (snd (check_username net site_name sd uname)) = []
   \<and> count_list (snd (check_username net site_name sd uname)) Advance = 0"
  using attempts_loop_quiet
  by (simp add: check_username_def Let_def split: sum.splits del: attempts_loop.simps)

lemma interpret_response_result:
  "interpret_response site_name sd url resp = Inr (s, v, u) \<Longrightarrow> s = site_name \<and> u = url"
  by (auto simp: interpret_response_def Let_def split: if_splits sum.splits option.splits)

lemma attempt_once_result:
  "fst (attempt_once net site_name sd url meth a) = Inr (s, v, u) \<Longrightarrow> s = site_name \<and> u = url"
  by (auto simp: attempt_once_def split: sum.splits if_splits dest: interpret_response_result)

lemma attempts_loop_result:
  "fst (attempts_loop net site_name sd url meth as) = Inr (s, v, u) \<Longrightarrow> s = site_name \<and> u = url"
proof (induction as)
  case Nil
  then show ?case by simp
next
  case (Cons a as)
  obtain r evs where ao: "attempt_once net site_name sd url meth a = (r, evs)"
    by (cases "attempt_once net site_name sd url meth a")
  obtain r' evs' where al: "attempts_loop net site_name sd url meth as = (r', evs')"
    by (cases "attempts_loop net site_name sd url meth as")
  show ?case
  proof (cases r)
    case (Inr x)
    then show ?thesis
      using Cons.prems ao attempt_once_result [of net site_name sd url meth a s v u] by simp
  next
    case (Inl e)
    then show ?thesis
      using Cons ao al by (auto split: if_splits)
  qed
qed

lemma check_username_result:
  assumes "fst (check_username net site_name sd uname) = Inr (s, v, u)"
  shows "s = site_name \<and> build_url sd uname = Inr u"
proof (cases "build_url sd uname")
  case (Inl e)
  with assms show ?thesis by (simp add: check_username_def)
next
  case (Inr url)
  with assms have "fst (attempts_loop net site_name sd url
      (upper (case cfg_method sd of None \<Rightarrow> ''HEAD'' | Some m \<Rightarrow> m)) [0, 1, 2]) = Inr (s, v, u)"
    by (simp add: check_username_def Let_def del: attempts_loop.simps)
  from attempts_loop_result [OF this] Inr show ?thesis by simp
qed

lemma x_hit_append: "x_hit sites (xs @ ys) = (x_hit sites xs \<or> x_hit sites ys)"
  by (simp add: x_hit_def)

lemma collect_Inr:
  assumes "collect sites futs results x evs = Inr (rs, x', evs')"
  shows "\<exists>new. rs = results @ new \<and> map fst futs = map Inr new
           \<and> x' = (x \<or> x_hit sites new)
           \<and> evs' = evs @ concat (map (\<lambda>f. snd f @ [Advance]) futs)"
  using assms
proof (induction sites futs results x evs rule: collect.induct)
  case (1 sites results x_exists evs)
  then show ?case by (simp add: x_hit_def)
next
  case (2 sites e pevs futs results x_exists evs)
  then show ?case by simp
next
  case (3 sites site exists url pevs futs results x_exists evs)
  from 3(2) obtain new where n: "rs = (results @ [(site, exists, url)]) @ new"
      "map fst futs = map Inr new"
      "x' = ((if exists = Some True
           \<and> is_x_site site (case map_of sites site of None \<Rightarrow> empty_site | Some sd \<Rightarrow> sd)
        then True else x_exists) \<or> x_hit sites new)"
      "evs' = (evs @ pevs @ [Advance]) @ concat (map (\<lambda>f. snd f @ [Advance]) futs)"
    using 3(1) by (simp del: append_assoc) blast
  have "x_hit sites ((site, exists, url) # new)
      = ((exists = Some True
           \<and> is_x_site site (case map_of sites site of None \<Rightarrow> empty_site | Some sd \<Rightarrow> sd))
         \<or> x_hit sites new)"
    by (simp add: x_hit_def)
  then show ?case
    using n by (intro exI [of _ "(site, exists, url) # new"]) auto
qed


lemma probe_tasks_quiet:
  assumes "f \<in> set (probe_tasks w sites uname)"
  shows "gets (snd f) = [] \<and> count_list (snd f) Advance = 0"
  using assms check_username_quiet by (auto simp: probe_tasks_def)

lemma gets_probe_events:
  assumes "\<forall>f \<in> set futs. gets (snd f) = [] \<and> count_list (snd f) Advance = 0"
  shows "gets (concat (map (\<lambda>f. snd f @ [Advance]) futs)) = []
         \<and> count_list (concat (map (\<lambda>f. snd f @ [Advance]) futs)) Advance = length futs"
  using assms by (induction futs) (simp_all add: gets_append)

lemma fetch_x_bio_events: "snd (fetch_x_bio get uname) = [Get (''https://x.com/'' @ uname)]"
  by (simp add: fetch_x_bio_def Let_def)

lemma enrichment_fails_None:
  "enrichment_fails get uname \<Longrightarrow> fst (fetch_x_bio get uname) = Inr None"
  by (auto simp: enrichment_fails_def fetch_x_bio_def fetch_x_bio_try_def Let_def
        split: sum.splits)

lemma scan_username_Inr:
  assumes "scan_username w sites uname st = Inr st'"
  shows "\<exists>results bio.
           map fst (permute (completion w uname) (probe_tasks w sites uname)) = map Inr results
         \<and> all_results st' = (all_results st)(uname \<mapsto> results)
         \<and> summary_data st' = summary_data st @
              [(uname, length (filter (\<lambda>(_, e, _). e = Some True) results), length results)]
         \<and> trace st' = trace st @
              concat (map (\<lambda>f. snd f @ [Advance])
                        (permute (completion w uname) (probe_tasks w sites uname))) @
              (if x_hit sites results then [Get (''https://x.com/'' @ uname)] else [])
         \<and> (if x_hit sites results then fst (fetch_x_bio (http_get w) uname) = Inr bio
             else bio = None)
         \<and> bios_cache st' =
              (case bio of
                 None \<Rightarrow> bios_cache st
               | Some b \<Rightarrow> if b \<noteq> [] then (bios_cache st)(uname \<mapsto> b) else bios_cache st)"
proof -
  let ?futs = "permute (completion w uname) (probe_tasks w sites uname)"
  obtain results x_exists evs where c: "collect sites ?futs [] False [] = Inr (results, x_exists, evs)"
    using assms by (auto simp: scan_username_def Let_def split: sum.splits)
  from collect_Inr [OF c] have r: "map fst ?futs = map Inr results"
      and x: "x_exists = x_hit sites results"
      and e: "evs = concat (map (\<lambda>f. snd f @ [Advance]) ?futs)"
    by auto
  show ?thesis
  proof (cases "x_hit sites results")
    case True
    obtain bio where b: "fst (fetch_x_bio (http_get w) uname) = Inr bio"
      using assms c x True
      by (cases "fst (fetch_x_bio (http_get w) uname)")
         (auto simp: scan_username_def Let_def split: prod.splits)
    have "snd (fetch_x_bio (http_get w) uname) = [Get (''https://x.com/'' @ uname)]"
      by (rule fetch_x_bio_events)
    with b have fb: "fetch_x_bio (http_get w) uname = (Inr bio, [Get (''https://x.com/'' @ uname)])"
      by (simp add: prod_eq_iff)
    have "st' = \<lparr>all_results = (all_results st)(uname \<mapsto> results),
            summary_data = summary_data st @
              [(uname, length (filter (\<lambda>(_, e, _). e = Some True) results), length results)],
            bios_cache = (case bio of
                 None \<Rightarrow> bios_cache st
               | Some b \<Rightarrow> if b \<noteq> [] then (bios_cache st)(uname \<mapsto> b) else bios_cache st),
            trace = trace st @ evs @ [Get (''https://x.com/'' @ uname)]\<rparr>"
      using assms c x True fb by (simp add: scan_username_def Let_def)
    then show ?thesis using r e True b by (intro exI [of _ results] exI [of _ bio]) simp
  next
    case False
    have "st' = \<lparr>all_results = (all_results st)(uname \<mapsto> results),
            summary_data = summary_data st @
              [(uname, length (filter (\<lambda>(_, e, _). e = Some True) results), length results)],
            bios_cache = bios_cache st,
            trace = trace st @ evs @ []\<rparr>"
      using assms c x False by (simp add: scan_username_def Let_def)
    then show ?thesis using r e False by (intro exI [of _ results] exI [of _ None]) simp
  qed
qed


text \<open>
  What the sweep of a handle does when it returns: the events it adds to the trace are
  the events of the probes, with one \<open>Advance\<close> for each site and no enrichment fetch
  among them, followed by at most one enrichment fetch: exactly one when some result is
  Exists on a site that \<open>is_x_site\<close> accepts, none otherwise. A failed enrichment fetch,
  and a sweep without such a result, leave the biographies as they were; and the results
  stored for the handle are the same whatever the enrichment fetch meets.
\<close>

lemma scan_username_enrichment:
  assumes "scan_username w sites uname st = Inr st'"
  shows "\<exists>results pevs.
           all_results st' uname = Some results
         \<and> trace st' = trace st @ pevs @
              (if x_hit sites results then [Get (''https://x.com/'' @ uname)] else [])
         \<and> gets pevs = [] \<and> count_list pevs Advance = length sites
         \<and> (enrichment_fails (http_get w) uname \<longrightarrow> bios_cache st' = bios_cache st)
         \<and> (\<not> x_hit sites results \<longrightarrow> bios_cache st' = bios_cache st)
         \<and> (\<forall>get st''. scan_username (w\<lparr>http_get := get\<rparr>) sites uname st = Inr st'' \<longrightarrow>
                all_results st'' = all_results st')"
proof -
  let ?futs = "permute (completion w uname) (probe_tasks w sites uname)"
  let ?pevs = "concat (map (\<lambda>f. snd f @ [Advance]) ?futs)"
  from scan_username_Inr [OF assms] obtain results bio where
    r: "map fst ?futs = map Inr results"
    and a: "all_results st' = (all_results st)(uname \<mapsto> results)"
    and t: "trace st' = trace st @ ?pevs @
              (if x_hit sites results then [Get (''https://x.com/'' @ uname)] else [])"
    and b: "if x_hit sites results then fst (fetch_x_bio (http_get w) uname) = Inr bio
            else bio = None"
    and c: "bios_cache st' =
              (case bio of
                 None \<Rightarrow> bios_cache st
               | Some b \<Rightarrow> if b \<noteq> [] then (bios_cache st)(uname \<mapsto> b) else bios_cache st)"
    by blast
  have q: "\<forall>f \<in> set ?futs. gets (snd f) = [] \<and> count_list (snd f) Advance = 0"
    using probe_tasks_quiet by (simp add: permute_set)
  have 1: "gets ?pevs = []" "count_list ?pevs Advance = length sites"
    using gets_probe_events [OF q] by (simp_all add: permute_length probe_tasks_def)
  have 2: "bios_cache st' = bios_cache st" if "enrichment_fails (http_get w) uname"
  proof (cases "x_hit sites results")
    case True
    with b enrichment_fails_None [OF that] have "bio = None" by simp
    with c show ?thesis by simp
  next
    case False
    with b c show ?thesis by simp
  qed
  have 3: "bios_cache st' = bios_cache st" if "\<not> x_hit sites results"
    using that b c by simp
  have 4: "all_results st'' = all_results st'"
    if "scan_username (w\<lparr>http_get := get\<rparr>) sites uname st = Inr st''" for get st''
  proof -
    have same: "permute (completion (w\<lparr>http_get := get\<rparr>) uname)
                  (probe_tasks (w\<lparr>http_get := get\<rparr>) sites uname) = ?futs"
      by (simp add: probe_tasks_def)
    from scan_username_Inr [OF that] obtain results' where
      r': "map fst ?futs = map Inr results'"
      and a': "all_results st'' = (all_results st)(uname \<mapsto> results')"
      unfolding same by blast
    from r r' have "map Inr results' = (map Inr results :: (exn + probe_result) list)" by simp
    then have "results' = results"
      by (simp add: inj_map_eq_map [OF inj_Inr])
    with a a' show ?thesis by simp
  qed
  show ?thesis
    using a t 1 2 3 4 by (intro exI [of _ results] exI [of _ ?pevs]) simp
qed


lemma lower_strip_X: "lower (strip ''X'') = ''x''"
  by code_simp

lemma is_x_site_X: "is_x_site ''X'' sd"
  by (simp add: is_x_site_def lower_strip_X)

lemma probe_ex:
  "check_username (steady_net 404) ''ex'' plain_site ''alice''
     = (Inr (''ex'', NotFound, ''https://ex.com/alice''), [Request ''HEAD'' ''https://ex.com/alice''])"
  by (simp add: check_username_def build_url_def plain_site_def upper_HEAD attempt_once_def
        interpret_response_def steady_net_def body_response_def)

lemma probe_x:
  "check_username (steady_net 200) ''X'' x_site ''alice''
     = (Inr (''X'', Exists, ''https://x.com/alice''), [Request ''GET'' ''https://x.com/alice''])"
  by (simp add: check_username_def build_url_def x_site_def upper_GET attempt_once_def
        interpret_response_def looks_like_bad_redirect_def steady_net_def body_response_def
        read_limited_text_def char_pattern_def)

lemma bio_meta_page:
  "fetch_x_bio (page_get meta_page) ''alice''
     = (Inr (Some ''Hello <b>w</b>''), [Get ''https://x.com/alice''])"
  by (simp add: fetch_x_bio_def fetch_x_bio_try_def page_get_def search_meta_page
        clean_meta_page ellipsis80_def)

lemma example_scan:
  "scan_username example_world example_sites ''alice'' initial_state =
     Inr \<lparr>all_results =
             [''alice'' \<mapsto> [(''X'', Exists, ''https://x.com/alice''),
                            (''ex'', NotFound, ''https://ex.com/alice'')]],
          summary_data = [(''alice'', 1, 2)],
          bios_cache = [''alice'' \<mapsto> ''Hello <b>w</b>''],
          trace = [Request ''GET'' ''https://x.com/alice'', Advance,
                   Request ''HEAD'' ''https://ex.com/alice'', Advance,
                   Get ''https://x.com/alice'']\<rparr>"
  by (simp add: scan_username_def probe_tasks_def example_world_def example_sites_def
        probe_ex probe_x is_x_site_X bio_meta_page initial_state_def Let_def)

lemma scan_username_enrichment_example:
  "\<exists>st'. scan_username example_world example_sites ''alice'' initial_state = Inr st'
     \<and> all_results st' ''alice''
         = Some [(''X'', Exists, ''https://x.com/alice''), (''ex'', NotFound, ''https://ex.com/alice'')]
     \<and> trace st' = [Request ''GET'' ''https://x.com/alice'', Advance,
                     Request ''HEAD'' ''https://ex.com/alice'', Advance,
                     Get ''https://x.com/alice'']
     \<and> gets (trace st') = [''https://x.com/alice'']
     \<and> bios_cache st' ''alice'' = Some ''Hello <b>w</b>''"
  using scan_username_enrichment [OF example_scan] example_scan
  by simp

subsection \<open>The handle and the result map\<close>










lemma scan_username_results:
  assumes "scan_username w sites uname st = Inr st'"
  shows "\<exists>results.
           all_results st' = (all_results st)(uname \<mapsto> results)
         \<and> map fst results = permute (completion w uname) (map fst sites)
         \<and> (\<forall>(site, v, url) \<in> set results.
                \<exists>sd. (site, sd) \<in> set sites \<and> build_url sd uname = Inr url)"
proof -
  let ?tasks = "probe_tasks w sites uname"
  let ?futs = "permute (completion w uname) ?tasks"
  define name :: "(exn + probe_result) \<times> event list \<Rightarrow> string"
    where "name f = (case fst f of Inl e \<Rightarrow> [] | Inr r \<Rightarrow> fst r)" for f
  from scan_username_Inr [OF assms] obtain results where
    r: "map fst ?futs = map Inr results"
    and a: "all_results st' = (all_results st)(uname \<mapsto> results)"
    by blast
  have ok: "\<exists>r. fst f = Inr r" if "f \<in> set ?tasks" for f
  proof -
    from that have "fst f \<in> set (map fst ?futs)" by (simp add: permute_set)
    then show ?thesis unfolding r by auto
  qed
  have task_name: "name (check_username (http w uname site) site sd uname) = site"
    if "(site, sd) \<in> set sites" for site sd
  proof -
    have "check_username (http w uname site) site sd uname \<in> set ?tasks"
      using that by (force simp: probe_tasks_def)
    from ok [OF this] obtain s v u
      where "fst (check_username (http w uname site) site sd uname) = Inr (s, v, u)"
      by (metis prod_cases3)
    with check_username_result [OF this] show ?thesis by (simp add: name_def)
  qed
  have "map name ?tasks = map fst sites"
    unfolding probe_tasks_def using task_name by (auto simp: map_eq_conv)
  then have "map name ?futs = permute (completion w uname) (map fst sites)"
    by (simp add: permute_map)
  moreover have "map name ?futs = map fst results"
  proof -
    have "map name ?futs = map (\<lambda>x. case x of Inl e \<Rightarrow> [] | Inr r \<Rightarrow> fst r) (map fst ?futs)"
      by (simp add: name_def comp_def)
    also have "\<dots> = map fst results"
      unfolding r by (simp add: comp_def)
    finally show ?thesis .
  qed
  ultimately have m: "map fst results = permute (completion w uname) (map fst sites)"
    by simp
  have u: "\<exists>sd. (site, sd) \<in> set sites \<and> build_url sd uname = Inr url"
    if "(site, v, url) \<in> set results" for site v url
  proof -
    from that have "Inr (site, v, url) \<in> set (map fst ?futs)"
      unfolding r by simp
    then have "Inr (site, v, url) \<in> fst ` set ?tasks"
      by (simp add: permute_set)
    then obtain s sd where sd: "(s, sd) \<in> set sites"
      and c: "fst (check_username (http w uname s) s sd uname) = Inr (site, v, url)"
      by (auto simp: probe_tasks_def)
    from check_username_result [OF c] sd show ?thesis by auto
  qed
  show ?thesis using a m u by (intro exI [of _ results]) auto
qed

lemma scan_loop_results:
  assumes "scan_loop w sites unames st = Inr st'"
  shows "(\<forall>u \<in> set unames. \<exists>results.
            all_results st' u = Some results
          \<and> map fst results = permute (completion w u) (map fst sites)
          \<and> (\<forall>(site, v, url) \<in> set results.
                 \<exists>sd. (site, sd) \<in> set sites \<and> build_url sd u = Inr url))
       \<and> (\<forall>u. u \<notin> set unames \<longrightarrow> all_results st' u = all_results st u)"
  using assms
proof (induction unames arbitrary: st)
  case Nil
  then show ?case by simp
next
  case (Cons uname rest)
  from Cons.prems obtain st1 where s1: "scan_username w sites uname st = Inr st1"
    and s2: "scan_loop w sites rest st1 = Inr st'"
    by (auto split: sum.splits)
  from scan_username_results [OF s1] obtain results where
    a: "all_results st1 = (all_results st)(uname \<mapsto> results)"
    and m: "map fst results = permute (completion w uname) (map fst sites)"
    and u: "\<forall>(site, v, url) \<in> set results.
              \<exists>sd. (site, sd) \<in> set sites \<and> build_url sd uname = Inr url"
    by blast
  note IH = Cons.IH [OF s2]
  have here: "\<exists>results.
            all_results st' uname = Some results
          \<and> map fst results = permute (completion w uname) (map fst sites)
          \<and> (\<forall>(site, v, url) \<in> set results.
                 \<exists>sd. (site, sd) \<in> set sites \<and> build_url sd uname = Inr url)"
  proof (cases "uname \<in> set rest")
    case True
    with IH show ?thesis by blast
  next
    case False
    with IH have "all_results st' uname = all_results st1 uname" by blast
    with a m u show ?thesis by (intro exI [of _ results]) simp
  qed
  have other: "all_results st' v = all_results st v" if "v \<notin> set (uname # rest)" for v
  proof -
    from that IH have "all_results st' v = all_results st1 v" by simp
    with a that show ?thesis by simp
  qed
  show ?case using here IH other by auto
qed











lemma run_scan_results:
  assumes "run_scan w a username = Inr st"
  shows "\<exists>sites_all.
           load_sites (re_compile w) (sites_json w) = Inr sites_all
         \<and> lower (strip username) \<noteq> []
         \<and> dom (all_results st) = set (usernames_to_check w a (lower (strip username)))
         \<and> (\<forall>u \<in> set (usernames_to_check w a (lower (strip username))). \<exists>results.
                all_results st u = Some results
              \<and> map fst results
                  = permute (completion w u) (map fst (included_sites a sites_all))
              \<and> (\<forall>(site, v, url) \<in> set results.
                     \<exists>sd. (site, sd) \<in> set (included_sites a sites_all)
                          \<and> build_url sd u = Inr url))"
proof -
  let ?base = "lower (strip username)"
  let ?us = "usernames_to_check w a ?base"
  obtain sites_all where l: "load_sites (re_compile w) (sites_json w) = Inr sites_all"
    using assms by (cases "load_sites (re_compile w) (sites_json w)") (simp_all add: run_scan_def)
  have ne: "?base \<noteq> []"
    using assms l by (auto simp: run_scan_def Let_def split: if_splits)
  have sl: "scan_loop w (included_sites a sites_all) ?us initial_state = Inr st"
    using assms l ne by (simp add: run_scan_def Let_def)
  note r = scan_loop_results [OF sl]
  have n: "all_results st u = None" if "u \<notin> set ?us" for u
    using r that by (simp add: initial_state_def)
  have y: "all_results st u \<noteq> None" if "u \<in> set ?us" for u
    using r that by force
  have d: "dom (all_results st) = set ?us"
  proof (rule set_eqI)
    fix u
    show "u \<in> dom (all_results st) \<longleftrightarrow> u \<in> set ?us"
      using n [of u] y [of u] by (cases "u \<in> set ?us") (auto simp: dom_def)
  qed
  show ?thesis
    using l ne d r by (intro exI [of _ sites_all]) blast
qed

lemma run_scan_one_result_per_pair:
  assumes "run_scan w a username = Inr st"
    and "load_sites (re_compile w) (sites_json w) = Inr sites_all"
    and "distinct (map fst sites_all)"
    and "all_results st u = Some results"
  shows "distinct (map fst results)
       \<and> set (map fst results)
           = {site. \<exists>sd. (site, sd) \<in> set sites_all \<and> (\<not> cfg_skip sd \<or> include_skipped a)}"
proof -
  from run_scan_results [OF assms(1)] assms(2) have
    d: "dom (all_results st) = set (usernames_to_check w a (lower (strip username)))"
    and r: "\<forall>u \<in> set (usernames_to_check w a (lower (strip username))). \<exists>results.
                all_results st u = Some results
              \<and> map fst results
                  = permute (completion w u) (map fst (included_sites a sites_all))"
    by auto
  from assms(4) d have "u \<in> set (usernames_to_check w a (lower (strip username)))"
    by auto
  with r assms(4) have m: "map fst results
      = permute (completion w u) (map fst (included_sites a sites_all))"
    by fastforce
  have "distinct (map fst (included_sites a sites_all))"
    unfolding included_sites_def using assms(3) by (rule distinct_map_filter)
  then have 1: "distinct (map fst results)"
    unfolding m by (rule permute_distinct)
  have 2: "set (map fst results)
           = {site. \<exists>sd. (site, sd) \<in> set sites_all \<and> (\<not> cfg_skip sd \<or> include_skipped a)}"
    unfolding m permute_set by (force simp: included_sites_def)
  show ?thesis using 1 2 by (rule conjI)
qed


lemma normalize_Alice: "lower (strip ''Alice '') = ''alice''" "lower (strip ''alice'') = ''alice''"
  by code_simp+


lemma plain_args_variants: "\<not> variants plain_args"
  by (simp add: plain_args_def)




lemma load_broken:
  "load_sites (re_compile broken_world) (sites_json broken_world)
     = Inr [(''ex'', plain_site), (''nourl'', plain_site\<lparr>cfg_url := None\<rparr>)]"
  by (simp add: load_sites_def broken_world_def example_world_def broken_raw_def load_cfg_def
        compile_opt_def plain_site_def)

lemma probe_nourl:
  "check_username net ''nourl'' (plain_site\<lparr>cfg_url := None\<rparr>) ''alice'' = (Inl KeyError, [])"
  by (simp add: check_username_def build_url_def plain_site_def)

text \<open>
  C6. A scan is to run to completion with one result for each handle and included
  profile, and to abort on a configuration error only, before any probe. On a catalog
  that \<open>load_sites\<close> accepts, in which one profile has no url, it does not: the probe of
  that profile raises KeyError while it builds its URL, outside the \<open>try\<close> block, and
  the run ends with that exception and without results.
\<close>

theorem run_scan_aborts_on_profile_without_url:
  "load_sites (re_compile broken_world) (sites_json broken_world)
     = Inr [(''ex'', plain_site), (''nourl'', plain_site\<lparr>cfg_url := None\<rparr>)]
   \<and> run_scan broken_world plain_args ''alice'' = Inl KeyError"
proof -
  have inc: "included_sites plain_args [(''ex'', plain_site), (''nourl'', plain_site\<lparr>cfg_url := None\<rparr>)]
      = [(''ex'', plain_site), (''nourl'', plain_site\<lparr>cfg_url := None\<rparr>)]"
    by (simp add: included_sites_def plain_site_def plain_args_def)
  have sc: "scan_username broken_world
        [(''ex'', plain_site), (''nourl'', plain_site\<lparr>cfg_url := None\<rparr>)] ''alice'' initial_state
      = Inl KeyError"
    by (simp add: scan_username_def probe_tasks_def broken_world_def example_world_def
          probe_ex probe_nourl Let_def)
  show ?thesis
    by (simp add: load_broken run_scan_def inc normalize_Alice Let_def usernames_to_check_def
          plain_args_variants sc)
qed

subsection \<open>The trigger of the enrichment step\<close>

lemma load_lookalike:
  "load_sites (re_compile lookalike_world) (sites_json lookalike_world)
     = Inr [(''ex'', lookalike_site)]"
  by (simp add: load_sites_def lookalike_world_def example_world_def lookalike_raw_def
        load_cfg_def compile_opt_def lookalike_site_def plain_site_def)

lemma is_x_site_lookalike: "is_x_site ''ex'' lookalike_site"
  by code_simp

lemma name_lookalike: "lower (strip ''ex'') = ''ex''"
  by code_simp

lemma probe_lookalike:
  "check_username (steady_net 200) ''ex'' lookalike_site ''alice''
     = (Inr (''ex'', Exists, ''https://ex.com/alice''), [Request ''HEAD'' ''https://ex.com/alice''])"
  by (simp add: check_username_def build_url_def lookalike_site_def plain_site_def upper_HEAD
        attempt_once_def interpret_response_def looks_like_bad_redirect_def steady_net_def
        body_response_def read_limited_text_def char_pattern_def)

lemma scan_lookalike:
  "scan_username lookalike_world [(''ex'', lookalike_site)] ''alice'' initial_state =
     Inr \<lparr>all_results = [''alice'' \<mapsto> [(''ex'', Exists, ''https://ex.com/alice'')]],
          summary_data = [(''alice'', 1, 1)],
          bios_cache = [''alice'' \<mapsto> ''Hello <b>w</b>''],
          trace = [Request ''HEAD'' ''https://ex.com/alice'', Advance,
                   Get ''https://x.com/alice'']\<rparr>"
  by (simp add: scan_username_def probe_tasks_def lookalike_world_def example_world_def
        probe_lookalike is_x_site_lookalike bio_meta_page initial_state_def Let_def)

text \<open>
  C8. The enrichment fetch is to be issued at most once for a handle, after all its
  probes, and only if some probe returned Exists for the high-signal platform, the
  profile of X or Twitter. On a catalog whose only profile is the site \<open>ex\<close> with the URL
  template \<open>https://ex.com/{}\<close> it is issued although no profile of the catalog is that
  platform: \<open>is_x_site\<close> looks for the text \<open>x.com/{}\<close> anywhere in the template, and
  \<open>ex.com/{}\<close> contains it. The probe of \<open>ex\<close> returns Exists, the page
  \<open>https://x.com/alice\<close> is fetched, and the biography found there is stored for the
  handle.
\<close>

theorem enrichment_for_another_platform:
  "load_sites (re_compile lookalike_world) (sites_json lookalike_world)
     = Inr [(''ex'', lookalike_site)]
   \<and> cfg_url lookalike_site = Some ''https://ex.com/{}''
   \<and> lower (strip ''ex'') = ''ex''
   \<and> is_x_site ''ex'' lookalike_site
   \<and> run_scan lookalike_world plain_args ''alice'' =
       Inr \<lparr>all_results = [''alice'' \<mapsto> [(''ex'', Exists, ''https://ex.com/alice'')]],
            summary_data = [(''alice'', 1, 1)],
            bios_cache = [''alice'' \<mapsto> ''Hello <b>w</b>''],
            trace = [Request ''HEAD'' ''https://ex.com/alice'', Advance,
                     Get ''https://x.com/alice'']\<rparr>"
proof -
  have inc: "included_sites plain_args [(''ex'', lookalike_site)] = [(''ex'', lookalike_site)]"
    by (simp add: included_sites_def lookalike_site_def plain_site_def plain_args_def)
  have url: "cfg_url lookalike_site = Some ''https://ex.com/{}''"
    by (simp add: lookalike_site_def plain_site_def)
  have run: "run_scan lookalike_world plain_args ''alice'' =
       Inr \<lparr>all_results = [''alice'' \<mapsto> [(''ex'', Exists, ''https://ex.com/alice'')]],
            summary_data = [(''alice'', 1, 1)],
            bios_cache = [''alice'' \<mapsto> ''Hello <b>w</b>''],
            trace = [Request ''HEAD'' ''https://ex.com/alice'', Advance,
                     Get ''https://x.com/alice'']\<rparr>"
    by (simp add: run_scan_def load_lookalike inc normalize_Alice Let_def
          usernames_to_check_def plain_args_variants scan_lookalike)
  show ?thesis
    using load_lookalike url name_lookalike is_x_site_lookalike run by (intro conjI)
qed

end
